theory Spec2Isabelle
  imports Complex_Main "HOL-Library.Word"
begin

section \<open>PathContainer: the drawing history (src/src/drawing/pathcontainer.cpp)\<close>

subsection \<open>Data\<close>

text \<open>
  A \<open>QGraphicsItem*\<close> is modelled by its identity \<open>'a\<close> together with the run-time type
  tag that the code switches on: \<open>Null\<close> is the null pointer, \<open>Path\<close> an
  \<open>AbstractGraphicsPath\<close> (full or basic), \<open>Other\<close> any other item (text, line) and
  \<open>Group\<close> a \<open>QGraphicsItemGroup\<close> with its child paths in insertion order.
  The scene (display surface) is not part of the model.
\<close>

datatype 'a gitem = Null | Path 'a | Other 'a | Group "'a list"

text \<open>
  \<open>QMap<int, QGraphicsItem*>\<close>: an association list kept sorted by key, with one entry
  per key. \<open>qmap_set\<close> is \<open>map[k] = v\<close>.
\<close>

type_synonym 'v qmap = "(int \<times> 'v) list"

fun qmap_set :: "int \<Rightarrow> 'v \<Rightarrow> 'v qmap \<Rightarrow> 'v qmap" where
  "qmap_set k v [] = [(k, v)]"
| "qmap_set k v ((k', v') # m) =
     (if k < k' then (k, v) # (k', v') # m
      else if k = k' then (k, v) # m
      else (k', v') # qmap_set k v m)"

record 'a DrawHistoryStep =
  createdItems :: "'a gitem qmap"
  deletedItems :: "'a gitem qmap"

record 'a PathContainer =
  paths :: "'a gitem list"
  history :: "'a DrawHistoryStep list"
  inHistory :: int

text \<open>
  \<open>QList\<close> operations with an \<open>int\<close> index, as Qt 5 defines them: \<open>removeAt\<close> does
  nothing when the index is out of range, \<open>insert\<close> prepends for \<open>i \<le> 0\<close> and
  appends for \<open>i \<ge> size\<close>, \<open>value\<close> returns the default value (a null pointer) out of
  range, \<open>indexOf\<close> returns the first position or \<open>-1\<close>.
\<close>

definition removeAt :: "int \<Rightarrow> 'x list \<Rightarrow> 'x list" where
  "removeAt i xs =
     (if 0 \<le> i \<and> i < int (length xs) then take (nat i) xs @ drop (Suc (nat i)) xs else xs)"

definition insert_at :: "int \<Rightarrow> 'x \<Rightarrow> 'x list \<Rightarrow> 'x list" where
  "insert_at i x xs =
     (if i \<le> 0 then x # xs
      else if int (length xs) \<le> i then xs @ [x]
      else take (nat i) xs @ x # drop (nat i) xs)"

definition value_at :: "int \<Rightarrow> 'a gitem list \<Rightarrow> 'a gitem" where
  "value_at i xs = (if 0 \<le> i \<and> i < int (length xs) then xs ! nat i else Null)"

fun indexOf :: "'x \<Rightarrow> 'x list \<Rightarrow> int" where
  "indexOf x [] = -1"
| "indexOf x (y # ys) = (if x = y then 0 else (let r = indexOf x ys in if r < 0 then -1 else r + 1))"

text \<open>Removing the keys of a map from the list, highest key first; inserting the
  entries of a map, lowest key first.\<close>

definition remove_keys :: "'v qmap \<Rightarrow> 'x list \<Rightarrow> 'x list" where
  "remove_keys m xs = fold (\<lambda>(k, v) ps. removeAt k ps) (rev m) xs"

definition insert_entries :: "'x qmap \<Rightarrow> 'x list \<Rightarrow> 'x list" where
  "insert_entries m xs = fold (\<lambda>(k, v) ps. insert_at k v ps) m xs"

subsection \<open>undo and redo\<close>

definition undo :: "'a PathContainer \<Rightarrow> bool \<times> 'a PathContainer" where
  "undo s =
     (if inHistory s < 0 \<or> int (length (history s)) - inHistory s < 1 then (False, s)
      else
        let ih = inHistory s + 1;
            step = history s ! nat (int (length (history s)) - ih);
            ps1 = remove_keys (createdItems step) (paths s);
            ps2 = insert_entries (deletedItems step) ps1
        in (True, s\<lparr>paths := ps2, inHistory := ih\<rparr>))"

text \<open>\<open>redo\<close> reads \<open>history[history.length() - inHistory]\<close>; the index is valid when
  \<open>inHistory \<le> history.length()\<close>, which is the caller's invariant.\<close>

definition redo :: "'a PathContainer \<Rightarrow> bool \<times> 'a PathContainer" where
  "redo s =
     (if inHistory s < 1 then (False, s)
      else
        let step = history s ! nat (int (length (history s)) - inHistory s);
            ps1 = remove_keys (deletedItems step) (paths s);
            ps2 = insert_entries (createdItems step) ps1
        in (True, s\<lparr>paths := ps2, inHistory := inHistory s - 1\<rparr>))"

subsection \<open>Pruning and truncating the history\<close>

text \<open>The \<open>for\<close> loop of \<open>clearHistory\<close> takes the first step \<open>k\<close> times; the
  \<open>while\<close> loop of \<open>truncateHistory\<close> takes the last step \<open>k\<close> times.\<close>

fun takeFirst_times :: "nat \<Rightarrow> 'x list \<Rightarrow> 'x list" where
  "takeFirst_times 0 h = h"
| "takeFirst_times (Suc k) h = takeFirst_times k (tl h)"

fun takeLast_times :: "nat \<Rightarrow> 'x list \<Rightarrow> 'x list" where
  "takeLast_times 0 h = h"
| "takeLast_times (Suc k) h = takeLast_times k (butlast h)"

text \<open>The body of \<open>clearHistory(n)\<close> after its two guards on \<open>inHistory\<close>: clamp
  \<open>n\<close> at 0 and drop the oldest steps until \<open>history.length() - inHistory \<le> n\<close>.\<close>

definition dropOldest :: "int \<Rightarrow> 'a PathContainer \<Rightarrow> 'a PathContainer" where
  "dropOldest n s =
     (let n' = (if n < 0 then 0 else n)
      in s\<lparr>history := takeFirst_times (nat (int (length (history s)) - inHistory s - n')) (history s)\<rparr>)"

subsection \<open>Micro-steps of the eraser\<close>

text \<open>
  \<open>AbstractGraphicsPath::splitErase\<close> belongs to the path classes and is a parameter
  here. Its result list is read by the container in three ways only: an empty list (the
  path is erased), a list starting with a null pointer (the path is untouched), or a list
  of new paths.
\<close>

datatype 'a erase_result = Erased | Untouched | Pieces "'a list"

text \<open>The inner loop of the group case: every child of the snapshot is erased against;
  a hit child leaves the group and its pieces join it.\<close>

fun erase_children :: "('a \<Rightarrow> 'a erase_result) \<Rightarrow> 'a list \<Rightarrow> 'a list \<Rightarrow> 'a list" where
  "erase_children split [] grp = grp"
| "erase_children split (c # cs) grp =
     erase_children split cs
       (case split c of
          Untouched \<Rightarrow> grp
        | Erased \<Rightarrow> remove1 c grp
        | Pieces ps \<Rightarrow> remove1 c (grp @ ps))"

text \<open>One iteration of the loop of \<open>eraserMicroStep\<close> at index \<open>i\<close>: the new value of
  \<open>paths[i]\<close> and of the open step's \<open>deletedItems\<close>. \<open>hit\<close> is the bounding-rectangle
  test for the eraser's position and size.\<close>

definition eraser_item ::
  "('a gitem \<Rightarrow> bool) \<Rightarrow> ('a \<Rightarrow> 'a erase_result) \<Rightarrow> int \<Rightarrow> 'a gitem \<Rightarrow> 'a gitem qmap
     \<Rightarrow> 'a gitem \<times> 'a gitem qmap" where
  "eraser_item hit split i it del =
     (if it \<noteq> Null \<and> hit it then
        (case it of
           Path p \<Rightarrow>
             (case split p of
                Erased \<Rightarrow> (Null, qmap_set i (Path p) del)
              | Untouched \<Rightarrow> (it, del)
              | Pieces ps \<Rightarrow> (Group ps, qmap_set i (Path p) del))
         | Group cs \<Rightarrow> (Group (erase_children split cs cs), del)
         | _ \<Rightarrow> (it, del))
      else (it, del))"

fun eraser_loop ::
  "('a gitem \<Rightarrow> bool) \<Rightarrow> ('a \<Rightarrow> 'a erase_result) \<Rightarrow> int \<Rightarrow> 'a gitem list \<Rightarrow> 'a gitem qmap
     \<Rightarrow> 'a gitem list \<times> 'a gitem qmap" where
  "eraser_loop hit split i [] del = ([], del)"
| "eraser_loop hit split i (x # xs) del =
     (let (x', del') = eraser_item hit split i x del;
          (xs', del'') = eraser_loop hit split (i + 1) xs del'
      in (x' # xs', del''))"

text \<open>\<open>eraserMicroStep\<close> writes to \<open>history.last()\<close>; the history is not empty while a
  micro-step is open, because \<open>startMicroStep\<close> has appended the step.\<close>

definition eraserMicroStep ::
  "('a gitem \<Rightarrow> bool) \<Rightarrow> ('a \<Rightarrow> 'a erase_result) \<Rightarrow> 'a PathContainer \<Rightarrow> 'a PathContainer" where
  "eraserMicroStep hit split s =
     (if inHistory s \<noteq> -1 then s
      else
        let (ps, del) = eraser_loop hit split 0 (paths s) (deletedItems (last (history s)))
        in s\<lparr>paths := ps,
             history := butlast (history s) @ [(last (history s))\<lparr>deletedItems := del\<rparr>]\<rparr>)"

text \<open>Step 1 of \<open>applyMicroStep\<close>: the children of every group found at a deleted index
  become created items; \<open>shift\<close> counts new items minus deleted items before the index.\<close>

fun add_children :: "int \<Rightarrow> int \<Rightarrow> 'a list \<Rightarrow> 'a gitem qmap \<Rightarrow> int \<times> 'a gitem qmap" where
  "add_children k shift [] cr = (shift, cr)"
| "add_children k shift (c # cs) cr = add_children k (shift + 1) cs (qmap_set (k + shift) (Path c) cr)"

fun fix_step :: "'a gitem list \<Rightarrow> 'a gitem qmap \<Rightarrow> int \<Rightarrow> 'a gitem qmap \<Rightarrow> 'a gitem qmap" where
  "fix_step ps [] shift cr = cr"
| "fix_step ps ((k, v) # old) shift cr =
     (case value_at k ps of
        Group cs \<Rightarrow> (let (shift', cr') = add_children k shift cs cr in fix_step ps old (shift' - 1) cr')
      | _ \<Rightarrow> fix_step ps old (shift - 1) cr)"

text \<open>
  \<open>hlim\<close> is \<open>preferences()->history_length_visible_slides\<close>. At the end of
  \<open>applyMicroStep\<close> the call \<open>clearHistory(hlim)\<close> runs with \<open>inHistory = 0\<close>, so the two
  guards of \<open>clearHistory\<close> do not fire and only its body \<open>dropOldest\<close> runs.
\<close>

definition applyMicroStep :: "int \<Rightarrow> 'a PathContainer \<Rightarrow> bool \<times> 'a PathContainer" where
  "applyMicroStep hlim s =
     (if inHistory s \<noteq> -1 then (True, s\<lparr>inHistory := 0\<rparr>)
      else
        let oldItems = deletedItems (last (history s))
        in if oldItems = [] then (False, s\<lparr>inHistory := 0, history := butlast (history s)\<rparr>)
           else
             let newItems = fix_step (paths s) oldItems 0 (createdItems (last (history s)));
                 ps = insert_entries newItems (remove_keys oldItems (paths s));
                 s1 = s\<lparr>paths := ps,
                        history := butlast (history s) @ [(last (history s))\<lparr>createdItems := newItems\<rparr>],
                        inHistory := 0\<rparr>
             in (True, if int (length (history s1)) > hlim then dropOldest hlim s1 else s1))"

definition clearHistory :: "int \<Rightarrow> int \<Rightarrow> 'a PathContainer \<Rightarrow> 'a PathContainer" where
  "clearHistory hlim n s =
     (if inHistory s = -2 then s
      else dropOldest n (if inHistory s = -1 then snd (applyMicroStep hlim s) else s))"

definition truncateHistory :: "int \<Rightarrow> 'a PathContainer \<Rightarrow> 'a PathContainer" where
  "truncateHistory hlim s =
     (if inHistory s = -1 then snd (applyMicroStep hlim s)
      else if inHistory s = -2 then s\<lparr>inHistory := 0\<rparr>
      else s\<lparr>history := takeLast_times (nat (inHistory s)) (history s),
             inHistory := (if inHistory s > 0 then 0 else inHistory s)\<rparr>)"

definition limitHistory :: "int \<Rightarrow> 'a PathContainer \<Rightarrow> 'a PathContainer" where
  "limitHistory hlim s = (if int (length (history s)) > hlim then clearHistory hlim hlim s else s)"

subsection \<open>Mutating operations\<close>

text \<open>The loop of \<open>clearPaths\<close>: \<open>step->deletedItems[i] = paths[i]\<close> for every index.\<close>

fun record_all :: "int \<Rightarrow> 'x list \<Rightarrow> 'x qmap \<Rightarrow> 'x qmap" where
  "record_all i [] m = m"
| "record_all i (x # xs) m = record_all (i + 1) xs (qmap_set i x m)"

definition clearPaths :: "int \<Rightarrow> 'a PathContainer \<Rightarrow> 'a PathContainer" where
  "clearPaths hlim s =
     (let s1 = truncateHistory hlim s;
          step = \<lparr>createdItems = [], deletedItems = record_all 0 (paths s1) []\<rparr>
      in limitHistory hlim (s1\<lparr>history := history s1 @ [step], paths := []\<rparr>))"

definition append_item :: "int \<Rightarrow> 'a gitem \<Rightarrow> 'a PathContainer \<Rightarrow> 'a PathContainer" where
  "append_item hlim item s =
     (let s1 = truncateHistory hlim s;
          step = \<lparr>createdItems = qmap_set (int (length (paths s1))) item [], deletedItems = []\<rparr>
      in limitHistory hlim (s1\<lparr>history := history s1 @ [step], paths := paths s1 @ [item]\<rparr>))"

definition startMicroStep :: "int \<Rightarrow> 'a PathContainer \<Rightarrow> 'a PathContainer" where
  "startMicroStep hlim s =
     (let s1 = truncateHistory hlim s
      in s1\<lparr>history := history s1 @ [\<lparr>createdItems = [], deletedItems = []\<rparr>], inHistory := -1\<rparr>)"

text \<open>\<open>removeItem\<close> looks the index up before \<open>truncateHistory\<close> runs and uses it
  afterwards.\<close>

definition removeItem :: "int \<Rightarrow> 'a gitem \<Rightarrow> 'a PathContainer \<Rightarrow> 'a PathContainer" where
  "removeItem hlim item s =
     (let index = indexOf item (paths s)
      in if index < 0 then s
         else
           let s1 = truncateHistory hlim s;
               step = \<lparr>createdItems = [], deletedItems = qmap_set index item []\<rparr>
           in limitHistory hlim (s1\<lparr>paths := removeAt index (paths s1), history := history s1 @ [step]\<rparr>))"


text \<open>The hypothesis of the no-op micro-step: the eraser does not intersect the item. Either
  the bounding-rectangle test fails or \<open>splitErase\<close> reports the path (every child of a
  group) as untouched.\<close>

definition misses :: "('a gitem \<Rightarrow> bool) \<Rightarrow> ('a \<Rightarrow> 'a erase_result) \<Rightarrow> 'a gitem \<Rightarrow> bool" where
  "misses hit split it =
     (case it of
        Path p \<Rightarrow> \<not> hit it \<or> split p = Untouched
      | Group cs \<Rightarrow> \<not> hit it \<or> (\<forall>c\<in>set cs. split c = Untouched)
      | _ \<Rightarrow> True)"

subsection \<open>A concrete run: removeItem while a micro-step is open\<close>

text \<open>Three paths are drawn, the eraser removes the first two completely, and the third is
  removed with \<open>removeItem\<close> before the micro-step is applied.\<close>

definition hitAB :: "nat gitem \<Rightarrow> bool" where
  "hitAB it = (it = Path 1 \<or> it = Path 2)"

definition eraseAll :: "nat \<Rightarrow> nat erase_result" where
  "eraseAll p = Erased"

definition empty_container :: "nat PathContainer" where
  "empty_container = \<lparr>paths = [], history = [], inHistory = 0\<rparr>"

definition three_paths :: "nat PathContainer" where
  "three_paths =
     append_item 50 (Path 3) (append_item 50 (Path 2) (append_item 50 (Path 1) empty_container))"

definition stale_state :: "nat PathContainer" where
  "stale_state =
     removeItem 50 (Path 3) (eraserMicroStep hitAB eraseAll (startMicroStep 50 three_paths))"

subsection \<open>A concrete run: applyMicroStep while a step is undone\<close>

text \<open>Two paths are drawn and the second is undone: the cursor is 1, no micro-step is
  open.\<close>

definition one_undone :: "nat PathContainer" where
  "one_undone = snd (undo (append_item 50 (Path 2) (append_item 50 (Path 1) empty_container)))"


subsection \<open>Replaying the history\<close>

text \<open>Every \<open>removeAt\<close> of the replay hits the recorded item; every \<open>insert\<close> of the replay
  is within the list.\<close>

fun removable :: "'x qmap \<Rightarrow> 'x list \<Rightarrow> bool" where
  "removable [] ps = True"
| "removable ((k, v) # m) ps =
     (removable m ps \<and> 0 \<le> k \<and> k < int (length (remove_keys m ps)) \<and> remove_keys m ps ! nat k = v)"

fun insertable :: "'x qmap \<Rightarrow> 'x list \<Rightarrow> bool" where
  "insertable [] xs = True"
| "insertable ((k, v) # m) xs = (0 \<le> k \<and> k \<le> int (length xs) \<and> insertable m (insert_at k v xs))"

definition undo_paths :: "'a DrawHistoryStep \<Rightarrow> 'a gitem list \<Rightarrow> 'a gitem list" where
  "undo_paths st ps = insert_entries (deletedItems st) (remove_keys (createdItems st) ps)"

definition redo_paths :: "'a DrawHistoryStep \<Rightarrow> 'a gitem list \<Rightarrow> 'a gitem list" where
  "redo_paths st ps = insert_entries (createdItems st) (remove_keys (deletedItems st) ps)"

definition undoable :: "'a DrawHistoryStep \<Rightarrow> 'a gitem list \<Rightarrow> bool" where
  "undoable st ps =
     (removable (createdItems st) ps \<and> insertable (deletedItems st) (remove_keys (createdItems st) ps))"

definition redoable :: "'a DrawHistoryStep \<Rightarrow> 'a gitem list \<Rightarrow> bool" where
  "redoable st ps =
     (removable (deletedItems st) ps \<and> insertable (createdItems st) (remove_keys (deletedItems st) ps))"

fun chain_back :: "'a gitem list \<Rightarrow> 'a DrawHistoryStep list \<Rightarrow> bool" where
  "chain_back ps [] = True"
| "chain_back ps (st # older) = (undoable st ps \<and> chain_back (undo_paths st ps) older)"

fun chain_fwd :: "'a gitem list \<Rightarrow> 'a DrawHistoryStep list \<Rightarrow> bool" where
  "chain_fwd ps [] = True"
| "chain_fwd ps (st # later) = (redoable st ps \<and> chain_fwd (redo_paths st ps) later)"

definition done_steps :: "'a PathContainer \<Rightarrow> 'a DrawHistoryStep list" where
  "done_steps s = rev (take (length (history s) - nat (inHistory s)) (history s))"

definition undone_steps :: "'a PathContainer \<Rightarrow> 'a DrawHistoryStep list" where
  "undone_steps s = drop (length (history s) - nat (inHistory s)) (history s)"

definition consistent :: "'a PathContainer \<Rightarrow> bool" where
  "consistent s =
     (0 \<le> inHistory s \<and> inHistory s \<le> int (length (history s))
      \<and> chain_back (paths s) (done_steps s) \<and> chain_fwd (paths s) (undone_steps s))"

text \<open>\<open>k\<close> calls of \<open>undo\<close>, \<open>k\<close> calls of \<open>redo\<close>.\<close>

definition undo_n :: "nat \<Rightarrow> 'a PathContainer \<Rightarrow> 'a PathContainer" where
  "undo_n k s = ((\<lambda>t. snd (undo t)) ^^ k) s"

definition redo_n :: "nat \<Rightarrow> 'a PathContainer \<Rightarrow> 'a PathContainer" where
  "redo_n k s = ((\<lambda>t. snd (redo t)) ^^ k) s"

subsection \<open>The states of a container that the operations reach\<close>

text \<open>Paths and other items, as opposed to null pointers and groups.\<close>

definition plain :: "'a gitem \<Rightarrow> bool" where
  "plain it = (case it of Path p \<Rightarrow> True | Other x \<Rightarrow> True | _ \<Rightarrow> False)"

definition children :: "'a gitem \<Rightarrow> 'a gitem list" where
  "children it = (case it of Group cs \<Rightarrow> map Path cs | _ \<Rightarrow> [])"

text \<open>While a micro-step is open: \<open>xs\<close> is the live sequence the micro-step started with,
  \<open>ps\<close> the current one and \<open>del\<close> the deleted map of the open step, all from index \<open>i\<close>
  on. A recorded index holds the original item in the map and a null pointer or a group
  in the sequence; every other index holds the original item.\<close>

fun erased_from :: "int \<Rightarrow> 'a gitem list \<Rightarrow> 'a gitem list \<Rightarrow> 'a gitem qmap \<Rightarrow> bool" where
  "erased_from i [] [] del = (del = [])"
| "erased_from i (x # xs) (p # ps) [] = (p = x \<and> plain x \<and> erased_from (i + 1) xs ps [])"
| "erased_from i (x # xs) (p # ps) ((k, v) # del) =
     (if k = i then v = x \<and> plain x \<and> \<not> plain p \<and> erased_from (i + 1) xs ps del
      else i < k \<and> p = x \<and> plain x \<and> erased_from (i + 1) xs ps ((k, v) # del))"
| "erased_from i [] (p # ps) del = False"
| "erased_from i (x # xs) [] del = False"

text \<open>The items at the indices that are not recorded, and the sequence that
  \<open>applyMicroStep\<close> builds: the children of a group in place of the recorded item.\<close>

fun kept :: "int \<Rightarrow> 'x list \<Rightarrow> 'v qmap \<Rightarrow> 'x list" where
  "kept i [] del = []"
| "kept i (p # ps) [] = p # kept (i + 1) ps []"
| "kept i (p # ps) ((k, v) # del) =
     (if k = i then kept (i + 1) ps del else p # kept (i + 1) ps ((k, v) # del))"

fun rebuilt :: "int \<Rightarrow> 'a gitem list \<Rightarrow> 'v qmap \<Rightarrow> 'a gitem list" where
  "rebuilt i [] del = []"
| "rebuilt i (p # ps) [] = p # rebuilt (i + 1) ps []"
| "rebuilt i (p # ps) ((k, v) # del) =
     (if k = i then children p @ rebuilt (i + 1) ps del else p # rebuilt (i + 1) ps ((k, v) # del))"

definition numbered :: "int \<Rightarrow> 'x list \<Rightarrow> 'x qmap" where
  "numbered j ys = zip (map (\<lambda>n. j + int n) [0..<length ys]) ys"

fun created_from :: "int \<Rightarrow> int \<Rightarrow> 'a gitem list \<Rightarrow> 'v qmap \<Rightarrow> 'a gitem qmap" where
  "created_from j i [] del = []"
| "created_from j i (p # ps) [] = []"
| "created_from j i (p # ps) ((k, v) # del) =
     (if k = i then numbered j (children p) @ created_from (j + int (length (children p))) (i + 1) ps del
      else created_from (j + 1) (i + 1) ps ((k, v) # del))"

text \<open>A container outside a micro-step: the history replays, and neither the live
  sequence nor the history holds a null pointer or a group. A container inside a
  micro-step: the steps before the open one replay from the sequence the micro-step
  started with.\<close>

definition plain_step :: "'a DrawHistoryStep \<Rightarrow> bool" where
  "plain_step st =
     ((\<forall>e\<in>set (createdItems st). plain (snd e)) \<and> (\<forall>e\<in>set (deletedItems st). plain (snd e)))"

definition settled :: "'a PathContainer \<Rightarrow> bool" where
  "settled s =
     (consistent s \<and> (\<forall>x\<in>set (paths s). plain x) \<and> (\<forall>st\<in>set (history s). plain_step st))"

definition erasing :: "'a PathContainer \<Rightarrow> bool" where
  "erasing s =
     (inHistory s = -1 \<and> history s \<noteq> [] \<and> createdItems (last (history s)) = []
      \<and> (\<forall>st\<in>set (butlast (history s)). plain_step st)
      \<and> (\<exists>xs. chain_back xs (rev (butlast (history s)))
                \<and> erased_from 0 xs (paths s) (deletedItems (last (history s)))))"

definition sound :: "'a PathContainer \<Rightarrow> bool" where
  "sound s = (settled s \<or> erasing s)"

text \<open>The states that the operations reach from the empty container. The items that are
  appended are paths or other items (no null pointer, no group); \<open>removeItem\<close> is not
  called while a micro-step is open, and \<open>applyMicroStep\<close> not while steps are undone.\<close>

inductive reachable :: "int \<Rightarrow> 'a PathContainer \<Rightarrow> bool" for hlim :: int where
  reach_empty: "reachable hlim \<lparr>paths = [], history = [], inHistory = 0\<rparr>"
| reach_append: "reachable hlim s \<Longrightarrow> plain item \<Longrightarrow> reachable hlim (append_item hlim item s)"
| reach_remove: "reachable hlim s \<Longrightarrow> inHistory s \<noteq> -1 \<Longrightarrow> reachable hlim (removeItem hlim item s)"
| reach_clear: "reachable hlim s \<Longrightarrow> reachable hlim (clearPaths hlim s)"
| reach_undo: "reachable hlim s \<Longrightarrow> reachable hlim (snd (undo s))"
| reach_redo: "reachable hlim s \<Longrightarrow> reachable hlim (snd (redo s))"
| reach_start: "reachable hlim s \<Longrightarrow> reachable hlim (startMicroStep hlim s)"
| reach_eraser: "reachable hlim s \<Longrightarrow> reachable hlim (eraserMicroStep hit split s)"
| reach_apply: "reachable hlim s \<Longrightarrow> inHistory s = -1 \<or> inHistory s = 0 \<Longrightarrow>
                reachable hlim (snd (applyMicroStep hlim s))"

subsection \<open>A concrete run: a micro-step that splits and erases\<close>

definition four_items :: "nat PathContainer" where
  "four_items =
     append_item 50 (Path 4) (append_item 50 (Other 3) (append_item 50 (Path 2)
       (append_item 50 (Path 1) empty_container)))"

definition split1 :: "nat \<Rightarrow> nat erase_result" where
  "split1 p =
     (if p = 1 then Pieces [11, 12] else if p = 2 then Erased else if p = 4 then Pieces [41]
      else if p = 12 then Pieces [121, 122] else if p = 11 then Erased else Untouched)"

definition erased_twice :: "nat PathContainer" where
  "erased_twice =
     snd (applyMicroStep 50
       (eraserMicroStep (\<lambda>it. True) split1
         (eraserMicroStep (\<lambda>it. True) split1 (startMicroStep 50 four_items))))"

section \<open>PixCache: the render cache (src/src/rendering/pixcache.cpp)\<close>

subsection \<open>Single-precision arithmetic\<close>

text \<open>
  \<open>maxMemory\<close> is declared \<open>float\<close> (src/src/pixcache.h), so the comparison
  \<open>usedMemory <= maxMemory\<close> and the quotient
  \<open>(maxMemory - usedMemory) * cached_slides / usedMemory\<close> convert their integer operands
  to \<open>float\<close> and are evaluated in IEEE 754 single precision: 24 bits of significand,
  exponents from \<open>-126\<close> to \<open>127\<close>, gradual underflow, every result rounded to the nearest
  representable value, ties to the even significand, and overflow to an infinity. The
  conversions of integers round in the same way, as IEEE 754 targets do (C++ leaves the
  choice between the two neighbouring values to the implementation), and no operation is
  evaluated in a wider format. A \<open>float32\<close> is a finite value, an infinity or a NaN;
  the sign of a zero is not modelled (a zero divisor counts as \<open>+0\<close>).
\<close>

datatype float32 = Fin real | PInf | MInf | NaN

definition round_even :: "real \<Rightarrow> int" where
  "round_even y =
     (let f = \<lfloor>y\<rfloor>; r = y - real_of_int f
      in if r < 1 / 2 then f else if 1 / 2 < r then f + 1 else if even f then f else f + 1)"

text \<open>The largest power of two that is not above \<open>x\<close>, found by doubling from \<open>b\<close>.\<close>

function grow :: "real \<Rightarrow> real \<Rightarrow> real" where
  "grow b x = (if 0 < b \<and> 2 * b \<le> x then grow (2 * b) x else b)"
  by pat_completeness auto
termination
proof (relation "measure (\<lambda>(b, x). nat \<lfloor>x / b\<rfloor>)")
  show "wf (measure (\<lambda>(b, x). nat \<lfloor>x / b\<rfloor>))" by simp
next
  fix b x :: real
  assume a: "0 < b \<and> 2 * b \<le> x"
  define t where "t = x / b"
  have t2: "2 \<le> t" using a by (simp add: t_def le_divide_eq)
  have e: "x / (2 * b) = t / 2" by (simp add: t_def)
  have "\<lfloor>t / 2\<rfloor> < \<lfloor>t\<rfloor>"
  proof -
    have "real_of_int \<lfloor>t / 2\<rfloor> \<le> t / 2" by (rule of_int_floor_le)
    also have "\<dots> \<le> t - 1" using t2 by simp
    also have "\<dots> < real_of_int \<lfloor>t\<rfloor>" by linarith
    finally show ?thesis by simp
  qed
  moreover have "0 < \<lfloor>t\<rfloor>" using t2 by linarith
  ultimately show "((2 * b, x), b, x) \<in> measure (\<lambda>(b, x). nat \<lfloor>x / b\<rfloor>)"
    unfolding e t_def[symmetric] by (simp add: e t_def[symmetric])
qed

declare grow.simps [simp del]

text \<open>Below 1 the power of two is found by halving, at most 126 times: the values under
  \<open>2 ^ -126\<close> are subnormal and share the spacing of the smallest normal binade.\<close>

fun shrink :: "nat \<Rightarrow> real \<Rightarrow> real \<Rightarrow> real" where
  "shrink 0 b x = b"
| "shrink (Suc n) b x = (if x < b then shrink n (b / 2) x else b)"

definition binade :: "real \<Rightarrow> real" where
  "binade x = (if 1 \<le> \<bar>x\<bar> then grow 1 \<bar>x\<bar> else shrink 126 1 \<bar>x\<bar>)"

definition FLT_MAX :: real where
  "FLT_MAX = (2 ^ 24 - 1) * 2 ^ 104"

text \<open>Rounding to single precision: the spacing of the representable values around \<open>x\<close>
  is \<open>binade x / 2 ^ 23\<close>; \<open>x\<close> is rounded to the nearest multiple of it, and a result
  beyond \<open>FLT_MAX\<close> is an infinity.\<close>

definition float_round :: "real \<Rightarrow> float32" where
  "float_round x =
     (let ulp = binade x / 2 ^ 23; y = real_of_int (round_even (x / ulp)) * ulp
      in if FLT_MAX < y then PInf else if y < - FLT_MAX then MInf else Fin y)"

text \<open>The conversion of an \<open>int\<close> or a \<open>qint64\<close> to \<open>float\<close>.\<close>

definition float_of_int :: "int \<Rightarrow> float32" where
  "float_of_int n = float_round (real_of_int n)"

definition fsub :: "float32 \<Rightarrow> float32 \<Rightarrow> float32" where
  "fsub a b =
     (case (a, b) of
        (NaN, _) \<Rightarrow> NaN
      | (_, NaN) \<Rightarrow> NaN
      | (Fin x, Fin y) \<Rightarrow> float_round (x - y)
      | (Fin x, PInf) \<Rightarrow> MInf
      | (Fin x, MInf) \<Rightarrow> PInf
      | (PInf, PInf) \<Rightarrow> NaN
      | (PInf, _) \<Rightarrow> PInf
      | (MInf, MInf) \<Rightarrow> NaN
      | (MInf, _) \<Rightarrow> MInf)"

definition fmul :: "float32 \<Rightarrow> float32 \<Rightarrow> float32" where
  "fmul a b =
     (case (a, b) of
        (NaN, _) \<Rightarrow> NaN
      | (_, NaN) \<Rightarrow> NaN
      | (Fin x, Fin y) \<Rightarrow> float_round (x * y)
      | (Fin x, PInf) \<Rightarrow> (if x = 0 then NaN else if 0 < x then PInf else MInf)
      | (Fin x, MInf) \<Rightarrow> (if x = 0 then NaN else if 0 < x then MInf else PInf)
      | (PInf, Fin y) \<Rightarrow> (if y = 0 then NaN else if 0 < y then PInf else MInf)
      | (MInf, Fin y) \<Rightarrow> (if y = 0 then NaN else if 0 < y then MInf else PInf)
      | (PInf, PInf) \<Rightarrow> PInf
      | (MInf, MInf) \<Rightarrow> PInf
      | (PInf, MInf) \<Rightarrow> MInf
      | (MInf, PInf) \<Rightarrow> MInf)"

definition fdiv :: "float32 \<Rightarrow> float32 \<Rightarrow> float32" where
  "fdiv a b =
     (case (a, b) of
        (NaN, _) \<Rightarrow> NaN
      | (_, NaN) \<Rightarrow> NaN
      | (Fin x, Fin y) \<Rightarrow>
          (if y = 0 then (if x = 0 then NaN else if 0 < x then PInf else MInf)
           else float_round (x / y))
      | (Fin x, _) \<Rightarrow> Fin 0
      | (PInf, Fin y) \<Rightarrow> (if 0 \<le> y then PInf else MInf)
      | (MInf, Fin y) \<Rightarrow> (if 0 \<le> y then MInf else PInf)
      | (_, _) \<Rightarrow> NaN)"

text \<open>The comparisons \<open><=\<close>, \<open><\<close> and \<open>==\<close> of two \<open>float\<close> values; they are false when one
  of the two is a NaN.\<close>

definition fle :: "float32 \<Rightarrow> float32 \<Rightarrow> bool" where
  "fle a b =
     (case (a, b) of
        (NaN, _) \<Rightarrow> False
      | (_, NaN) \<Rightarrow> False
      | (Fin x, Fin y) \<Rightarrow> x \<le> y
      | (MInf, _) \<Rightarrow> True
      | (_, PInf) \<Rightarrow> True
      | (_, _) \<Rightarrow> False)"

definition flt :: "float32 \<Rightarrow> float32 \<Rightarrow> bool" where
  "flt a b =
     (case (a, b) of
        (NaN, _) \<Rightarrow> False
      | (_, NaN) \<Rightarrow> False
      | (Fin x, Fin y) \<Rightarrow> x < y
      | (MInf, MInf) \<Rightarrow> False
      | (PInf, PInf) \<Rightarrow> False
      | (MInf, _) \<Rightarrow> True
      | (_, PInf) \<Rightarrow> True
      | (_, _) \<Rightarrow> False)"

definition feq :: "float32 \<Rightarrow> float32 \<Rightarrow> bool" where
  "feq a b = (a \<noteq> NaN \<and> a = b)"

text \<open>The conversion of a \<open>float\<close> to \<open>int\<close> truncates towards zero. When the truncated
  value does not fit an \<open>int\<close>, or the value is an infinity or a NaN, the conversion is
  undefined in C++ and the target decides what is left in the \<open>int\<close> (x86-64 leaves
  \<open>INT_MIN\<close>); that value is \<open>undef a\<close>, a parameter.\<close>

definition to_int :: "real \<Rightarrow> int" where
  "to_int x = (if 0 \<le> x then \<lfloor>x\<rfloor> else \<lceil>x\<rceil>)"

definition float_to_int :: "(float32 \<Rightarrow> int) \<Rightarrow> float32 \<Rightarrow> int" where
  "float_to_int undef a =
     (case a of
        Fin x \<Rightarrow> if - 2147483648 \<le> to_int x \<and> to_int x \<le> 2147483647 then to_int x else undef a
      | _ \<Rightarrow> undef a)"

text \<open>The sum of two \<open>int\<close> values of which one is the result of such a conversion, and
  so any \<open>int\<close>: when the sum does not fit an \<open>int\<close> the signed overflow is undefined in
  C++, and what is left in the \<open>int\<close> is \<open>undef a b\<close>, a parameter (two's complement
  targets wrap around).\<close>

definition int_sum :: "(int \<Rightarrow> int \<Rightarrow> int) \<Rightarrow> int \<Rightarrow> int \<Rightarrow> int" where
  "int_sum undef a b =
     (if - 2147483648 \<le> a + b \<and> a + b \<le> 2147483647 then a + b else undef a b)"

subsection \<open>Data\<close>

text \<open>
  \<open>PngPixmap\<close> is a class of its own. The cache reads its page, its
  resolution, its size in bytes, the decoded pixmap and \<open>isNull()\<close>; \<open>'p\<close> stands for a
  \<open>QPixmap\<close>. \<open>qreal\<close> values (resolutions, frame and page sizes) are modelled as real
  numbers without rounding, C++ \<open>int\<close> and \<open>qint64\<close> as unbounded integers. The field
  \<open>maxMemory\<close> is a \<open>float\<close>, and every operation on it is the single-precision
  operation of the previous subsection.
\<close>

record 'p PngPixmap =
  png_page :: int
  png_resolution :: real
  png_size :: int
  png_pixmap :: 'p
  png_isNull :: bool

text \<open>The cache is a \<open>QMap<int, const PngPixmap*>\<close>; the value \<open>None\<close> is a null
  pointer (a page reserved for a running thread).\<close>

record 'p PixCache =
  cache :: "'p PngPixmap option qmap"
  priority :: "int list"
  region :: "int \<times> int"
  frame :: "real \<times> real"
  maxMemory :: float32
  usedMemory :: int
  maxNumber :: int

text \<open>
  What the cache reads from its collaborators: \<open>preferences()->page\<close>, the number of
  pages and the page sizes of the document, the threads (\<open>None\<close> is a null pointer,
  \<open>Some r\<close> a thread with \<open>isRunning() = r\<close>), the renderer (\<open>None\<close> when it is null or
  invalid; a rendering that fails returns \<open>None\<close>, a null pixmap), whether the renderer's
  page part is \<open>FullPage\<close>, the size in bytes of the PNG made from a pixmap, and what the
  target leaves in an \<open>int\<close> when a \<open>float\<close> that does not fit is converted to it or
  when the sum of two \<open>int\<close> values overflows.
\<close>

record 'p cache_env =
  pref_page :: int
  numberOfPages :: int
  threads :: "bool option list"
  renderer :: "(int \<Rightarrow> real \<Rightarrow> 'p option) option"
  pageSize :: "int \<Rightarrow> real \<times> real"
  fullPage :: bool
  png_bytes :: "'p \<Rightarrow> int"
  undefined_conversion :: "float32 \<Rightarrow> int"
  undefined_sum :: "int \<Rightarrow> int \<Rightarrow> int"

datatype 'p cache_event =
    PageReady 'p int
  | Render int real
  | SetPixCacheThreadPage nat int real
  | StartTimer

definition MAX_RESOLUTION_DEVIATION :: real where
  "MAX_RESOLUTION_DEVIATION = 1 / 1000000000"

definition INT_MAX_half :: int where
  "INT_MAX_half = 1073741823"

text \<open>Lookup in the sorted map: the walk stops at the first larger key.\<close>

fun qmap_get :: "int \<Rightarrow> 'v qmap \<Rightarrow> 'v option" where
  "qmap_get k [] = None"
| "qmap_get k ((k', v') # m) =
     (if k < k' then None else if k = k' then Some v' else qmap_get k m)"

fun qmap_remove :: "int \<Rightarrow> 'v qmap \<Rightarrow> 'v qmap" where
  "qmap_remove k [] = []"
| "qmap_remove k ((k', v') # m) =
     (if k < k' then (k', v') # m else if k = k' then m else (k', v') # qmap_remove k m)"

definition contains :: "'v qmap \<Rightarrow> int \<Rightarrow> bool" where
  "contains m k = (qmap_get k m \<noteq> None)"

text \<open>\<open>cache.value(page, nullptr)\<close>: the entry, or a null pointer when the page is absent.\<close>

definition cache_value :: "'p PngPixmap option qmap \<Rightarrow> int \<Rightarrow> 'p PngPixmap option" where
  "cache_value m k = (case qmap_get k m of Some v \<Rightarrow> v | None \<Rightarrow> None)"

definition mkPng :: "'p cache_env \<Rightarrow> 'p \<Rightarrow> int \<Rightarrow> real \<Rightarrow> 'p PngPixmap" where
  "mkPng env pix page res =
     \<lparr>png_page = page, png_resolution = res, png_size = png_bytes env pix,
      png_pixmap = pix, png_isNull = False\<rparr>"

subsection \<open>clear, getResolution, and storing a page\<close>

definition clear :: "'p cache_env \<Rightarrow> 'p PixCache \<Rightarrow> 'p PixCache" where
  "clear env s = s\<lparr>cache := [], usedMemory := 0, region := (pref_page env, pref_page env)\<rparr>"

definition getResolution :: "'p cache_env \<Rightarrow> 'p PixCache \<Rightarrow> int \<Rightarrow> real" where
  "getResolution env s page =
     (let (w0, h) = pageSize env page
      in if w0 \<le> 0 \<or> h \<le> 0 then -1
         else
           let w = (if fullPage env then w0 else w0 / 2)
           in if w * snd (frame s) > h * fst (frame s) then fst (frame s) / w
              else snd (frame s) / h)"

text \<open>The block shared by \<open>pixmap\<close>, \<open>requestPage\<close> and \<open>receiveData\<close>: subtract the size
  of the entry that is replaced, store the new entry, add its size.\<close>

definition store :: "'p PngPixmap \<Rightarrow> int \<Rightarrow> 'p PixCache \<Rightarrow> 'p PixCache" where
  "store png page s =
     (let u = (case cache_value (cache s) page of
                 Some old \<Rightarrow> usedMemory s - png_size old
               | None \<Rightarrow> usedMemory s)
      in s\<lparr>cache := qmap_set page (Some png) (cache s), usedMemory := u + png_size png\<rparr>)"

definition compatible :: "'p PngPixmap option qmap \<Rightarrow> int \<Rightarrow> real \<Rightarrow> 'p PngPixmap option" where
  "compatible m page res =
     (case qmap_get page m of
        Some (Some e) \<Rightarrow> if \<bar>png_resolution e - res\<bar> < MAX_RESOLUTION_DEVIATION then Some e else None
      | _ \<Rightarrow> None)"

subsection \<open>pixmap, requestPage, receiveData\<close>

definition pixmap :: "'p cache_env \<Rightarrow> int \<Rightarrow> real \<Rightarrow> 'p PixCache \<Rightarrow> 'p option \<times> 'p PixCache" where
  "pixmap env page resolution s =
     (let res = (if resolution \<le> 0 then getResolution env s page else resolution)
      in case compatible (cache s) page res of
           Some e \<Rightarrow> (Some (png_pixmap e), s)
         | None \<Rightarrow>
             if page < 0 \<or> page \<ge> numberOfPages env then (None, s)
             else case renderer env of
                    None \<Rightarrow> (None, s)
                  | Some render \<Rightarrow>
                      (case render page res of
                         None \<Rightarrow> (None, s)
                       | Some pix \<Rightarrow> (Some pix, store (mkPng env pix page res) page s)))"

definition requestPage ::
  "'p cache_env \<Rightarrow> int \<Rightarrow> real \<Rightarrow> bool \<Rightarrow> 'p PixCache \<Rightarrow> 'p cache_event list \<times> 'p PixCache" where
  "requestPage env page resolution cache_page s =
     (case compatible (cache s) page resolution of
        Some e \<Rightarrow> ([PageReady (png_pixmap e) page], s)
      | None \<Rightarrow>
          if page < 0 \<or> page \<ge> numberOfPages env then ([], s)
          else case renderer env of
                 None \<Rightarrow> ([], s)
               | Some render \<Rightarrow>
                   (case render page resolution of
                      None \<Rightarrow> ([Render page resolution], s)
                    | Some pix \<Rightarrow>
                        ([Render page resolution, PageReady pix page, StartTimer],
                         if cache_page then store (mkPng env pix page resolution) page s else s)))"

definition receiveData ::
  "'p cache_env \<Rightarrow> 'p PngPixmap option \<Rightarrow> 'p PixCache \<Rightarrow> 'p cache_event list \<times> 'p PixCache" where
  "receiveData env data s =
     (case data of
        None \<Rightarrow> ([], s)
      | Some d \<Rightarrow>
          if png_isNull d then ([], s)
          else if \<bar>getResolution env s (png_page d) - png_resolution d\<bar> > MAX_RESOLUTION_DEVIATION
          then ([StartTimer],
                if cache_value (cache s) (png_page d) = None
                then s\<lparr>cache := qmap_remove (png_page d) (cache s)\<rparr> else s)
          else ([StartTimer], store d (png_page d) s))"

subsection \<open>pageNumberChanged\<close>

text \<open>The two iterator walks that extend the region: \<open>left\<close> steps down through the keys
  below \<open>region.first\<close>, \<open>right\<close> steps up through the keys above \<open>region.second\<close>, each
  while the key under the iterator equals the boundary.\<close>

fun walk_left :: "int list \<Rightarrow> int \<Rightarrow> int" where
  "walk_left [] f = f"
| "walk_left (k # ks) f = (if k = f then walk_left ks (f - 1) else f)"

fun walk_right :: "int list \<Rightarrow> int \<Rightarrow> int" where
  "walk_right [] l = l"
| "walk_right (k # ks) l = (if k = l then walk_right ks (l + 1) else l)"

definition pageNumberChanged :: "int \<Rightarrow> 'p PixCache \<Rightarrow> 'p cache_event list \<times> 'p PixCache" where
  "pageNumberChanged page s =
     (if \<not> contains (cache s) page then
        ([], s\<lparr>priority := (if priority s \<noteq> [] \<and> hd (priority s) \<noteq> page
                             then page # remove1 page (priority s) else priority s),
               region := (page, page)\<rparr>)
      else
        let (f0, l0) = (if fst (region s) > page \<or> snd (region s) < page
                        then (page - 1, page + 1) else region s);
            keys = map fst (cache s);
            f1 = (if contains (cache s) f0 then walk_left (rev (filter (\<lambda>k. k \<le> f0) keys)) f0 else f0);
            l1 = walk_right (filter (\<lambda>k. l0 \<le> k) keys) l0
        in ([StartTimer], s\<lparr>region := (f1, l1)\<rparr>))"

subsection \<open>limitCacheSize\<close>

definition running_threads :: "'p cache_env \<Rightarrow> int" where
  "running_threads env = int (length (filter (\<lambda>t. t = Some True) (threads env)))"

text \<open>\<open>(maxMemory - usedMemory) * cached_slides / usedMemory\<close>, assigned to an \<open>int\<close>:
  \<open>usedMemory\<close> (twice) and \<open>cached_slides\<close> are converted to \<open>float\<close>, the three
  operations are single-precision operations, and the quotient is converted to \<open>int\<close>.\<close>

definition memory_slides :: "'p cache_env \<Rightarrow> 'p PixCache \<Rightarrow> int \<Rightarrow> int" where
  "memory_slides env s cached_slides =
     float_to_int (undefined_conversion env)
       (fdiv (fmul (fsub (maxMemory s) (float_of_int (usedMemory s)))
                   (float_of_int cached_slides))
             (float_of_int (usedMemory s)))"

text \<open>The exit test at the head of the loop; \<open>usedMemory <= maxMemory\<close> compares the
  \<open>qint64\<close>, converted to \<open>float\<close>, with the \<open>float\<close>.\<close>

definition good_enough :: "'p cache_env \<Rightarrow> int \<Rightarrow> int \<Rightarrow> 'p PixCache \<Rightarrow> bool" where
  "good_enough env firstK lastK s =
     (((maxNumber s < 0 \<or> int (length (cache s)) \<le> maxNumber s)
       \<and> (flt (maxMemory s) (Fin 0) \<or> fle (float_of_int (usedMemory s)) (maxMemory s))
       \<and> lastK > pref_page env
       \<and> lastK - firstK \<le> int (length (cache s))
       \<and> 2 * lastK + 3 * firstK > 5 * pref_page env)
      \<or> length (cache s) < 2)"

text \<open>The erasure at one edge of the key range: the removed pointer, the new \<open>first\<close> and
  \<open>last\<close>, and the cache without the entry.\<close>

definition erase_edge ::
  "'p cache_env \<Rightarrow> int \<Rightarrow> int \<Rightarrow> 'p PixCache \<Rightarrow> 'p PngPixmap option \<times> int \<times> int \<times> 'p PixCache" where
  "erase_edge env firstK lastK s =
     (if lastK + 3 * firstK > 4 * pref_page env
      then (snd (last (cache s)), firstK, fst (last (butlast (cache s))), s\<lparr>cache := butlast (cache s)\<rparr>)
      else (snd (hd (cache s)), fst (hd (tl (cache s))), lastK, s\<lparr>cache := tl (cache s)\<rparr>))"

text \<open>The rest of the loop body after a non-null entry was removed: the new state,
  \<open>allowed_slides\<close> and \<open>cached_slides\<close>.\<close>

definition account_removed ::
  "'p cache_env \<Rightarrow> 'p PngPixmap \<Rightarrow> int \<Rightarrow> 'p PixCache \<Rightarrow> 'p PixCache \<times> int \<times> int" where
  "account_removed env png cached_slides s1 =
     (let s2 = s1\<lparr>usedMemory := usedMemory s1 - png_size png\<rparr>;
          c = cached_slides - 1;
          a = (if usedMemory s2 > 0 \<and> c > 0
               then (let m = memory_slides env s2 c
                     in if int_sum (undefined_sum env) m (int (length (cache s2))) > maxNumber s2
                        then maxNumber s2 - int (length (cache s2)) else m)
               else maxNumber s2 - int (length (cache s2)))
      in (s2, a, c))"

definition evict_step ::
  "'p cache_env \<Rightarrow> int \<Rightarrow> int \<Rightarrow> int \<Rightarrow> int \<Rightarrow> 'p PixCache \<Rightarrow> int \<times> int \<times> int \<times> int \<times> 'p PixCache" where
  "evict_step env firstK lastK allowed_slides cached_slides s =
     (let (remove, firstK1, lastK1, s1) = erase_edge env firstK lastK s
      in case remove of
           None \<Rightarrow> (firstK1, lastK1, allowed_slides, cached_slides, s1)
         | Some png \<Rightarrow>
             (let (s2, a, c) = account_removed env png cached_slides s1
              in (firstK1, lastK1, a, c, s2)))"

lemma evict_step_length:
  "evict_step env f l a c s = (f1, l1, a1, c1, s1) \<Longrightarrow> length (cache s1) = length (cache s) - 1"
  by (auto simp: evict_step_def erase_edge_def account_removed_def Let_def
      split: if_splits option.splits)

lemma evict_step_measure:
  "\<not> length (cache s) < 2 \<Longrightarrow>
   (case evict_step env f l a c s of (f1, l1, a1, c1, s1) \<Rightarrow> length (cache s1)) < length (cache s)"
  by (auto simp: evict_step_def erase_edge_def account_removed_def Let_def
      split: if_splits option.splits)

function evict_loop ::
  "'p cache_env \<Rightarrow> int \<Rightarrow> int \<Rightarrow> int \<Rightarrow> int \<Rightarrow> 'p PixCache \<Rightarrow> int \<times> 'p PixCache" where
  "evict_loop env firstK lastK allowed_slides cached_slides s =
     (if good_enough env firstK lastK s then (0, s)
      else
        let (firstK1, lastK1, allowed1, cached1, s1) =
              evict_step env firstK lastK allowed_slides cached_slides s
        in if allowed1 < int (length (threads env)) \<and> cached1 > 0
           then evict_loop env firstK1 lastK1 allowed1 cached1 s1
           else (allowed1,
                 s1\<lparr>region := (if firstK1 > fst (region s1) + 1 then firstK1 - 1 else fst (region s1),
                                if lastK1 + 1 < snd (region s1) then lastK1 + 1 else snd (region s1))\<rparr>))"
  by pat_completeness auto
termination
  apply (relation "measure (\<lambda>(env, firstK, lastK, a, c, s). length (cache s))")
   apply simp
  apply (auto simp: good_enough_def intro: evict_step_measure)
  done

text \<open>The region is updated after the loop only; a \<open>return\<close> from inside the loop
  leaves it as it is.\<close>

definition limitCacheSize :: "'p cache_env \<Rightarrow> 'p PixCache \<Rightarrow> int \<times> 'p PixCache" where
  "limitCacheSize env s =
     (if flt (maxMemory s) (Fin 0) \<and> maxNumber s < 0 then
        (if int (length (cache s)) = numberOfPages env then (0, s) else (INT_MAX_half, s))
      else if maxNumber s = 0 \<or> feq (maxMemory s) (Fin 0) then (0, clear env s)
      else
        let s1 = (if fst (region s) > snd (region s)
                  then s\<lparr>region := (pref_page env, pref_page env)\<rparr> else s);
            cached_slides = int (length (cache s1)) - running_threads env
        in if cached_slides \<le> 0 then (INT_MAX_half, s1)
           else
             let a0 = (if flt (Fin 0) (maxMemory s1)
                       then (if usedMemory s1 > 0 \<and> cached_slides > 0
                             then memory_slides env s1 cached_slides
                             else int (length (threads env)))
                       else INT_MAX_half);
                 allowed_slides =
                   (if maxNumber s1 > 0
                       \<and> int_sum (undefined_sum env) a0 (int (length (cache s1))) > maxNumber s1
                    then maxNumber s1 - int (length (cache s1)) else a0)
             in if allowed_slides \<ge> int (length (threads env)) then (allowed_slides, s1)
                else evict_loop env (fst (hd (cache s1))) (fst (last (cache s1)))
                       allowed_slides cached_slides s1)"

declare evict_loop.simps [simp del]

subsection \<open>renderNext and startRendering\<close>

text \<open>The first loop of \<open>renderNext\<close>: take pages from the priority queue until one is not
  in the cache.\<close>

fun next_priority :: "'v qmap \<Rightarrow> int list \<Rightarrow> int option \<times> int list" where
  "next_priority m [] = (None, [])"
| "next_priority m (p # ps) = (if \<not> contains m p then (Some p, ps) else next_priority m ps)"

lemma contains_keys: "contains m k \<Longrightarrow> k \<in> set (map fst m)"
  by (induction m) (auto simp: contains_def split: if_splits)

lemma filter_length_mono: "(\<And>y. P y \<Longrightarrow> Q y) \<Longrightarrow> length (filter P xs) \<le> length (filter Q xs)"
  by (induction xs) auto

lemma filter_length_strict:
  assumes "x \<in> set xs" "Q x" "\<not> P x" "\<And>y. P y \<Longrightarrow> Q y"
  shows "length (filter P xs) < length (filter Q xs)"
  using assms(1)
proof (induction xs)
  case Nil then show ?case by simp
next
  case (Cons a xs)
  have m: "length (filter P xs) \<le> length (filter Q xs)" using assms(4) by (rule filter_length_mono)
  show ?case
  proof (cases "a = x")
    case True then show ?thesis using m assms(2,3) by simp
  next
    case False
    then have "length (filter P xs) < length (filter Q xs)" using Cons by simp
    then show ?thesis using assms(4) by auto
  qed
qed

function region_loop :: "'v qmap \<Rightarrow> int \<Rightarrow> int \<Rightarrow> int \<Rightarrow> int \<times> int \<times> int" where
  "region_loop m pref f l =
     (if l + 3 * f > 4 * pref \<and> f \<ge> 0
      then (if \<not> contains m f then (f, f - 1, l) else region_loop m pref (f - 1) l)
      else (if \<not> contains m l then (l, f, l + 1) else region_loop m pref f (l + 1)))"
  by pat_completeness auto
termination
proof (relation "measure (\<lambda>(m, pref, f, l).
          length (filter (\<lambda>k. 0 \<le> k \<and> k \<le> f) (map fst m)) + length (filter (\<lambda>k. l \<le> k) (map fst m)))")
  show "wf (measure (\<lambda>(m, pref, f, l).
          length (filter (\<lambda>k. 0 \<le> k \<and> k \<le> f) (map fst m)) + length (filter (\<lambda>k. l \<le> k) (map fst m))))"
    by simp
next
  fix m :: "'v qmap" and pref f l :: int
  assume a: "4 * pref < l + 3 * f \<and> 0 \<le> f" and c: "\<not> \<not> contains m f"
  have "f \<in> set (map fst m)" using c contains_keys[of m] by blast
  then have "length (filter (\<lambda>k. 0 \<le> k \<and> k \<le> f - 1) (map fst m))
             < length (filter (\<lambda>k. 0 \<le> k \<and> k \<le> f) (map fst m))"
    using a by (intro filter_length_strict[where x = f]) auto
  then show "((m, pref, f - 1, l), m, pref, f, l) \<in> measure (\<lambda>(m, pref, f, l).
          length (filter (\<lambda>k. 0 \<le> k \<and> k \<le> f) (map fst m)) + length (filter (\<lambda>k. l \<le> k) (map fst m)))"
    by simp
next
  fix m :: "'v qmap" and pref f l :: int
  assume c: "\<not> \<not> contains m l"
  have "l \<in> set (map fst m)" using c contains_keys[of m] by blast
  then have "length (filter (\<lambda>k. l + 1 \<le> k) (map fst m)) < length (filter (\<lambda>k. l \<le> k) (map fst m))"
    by (intro filter_length_strict[where x = l]) auto
  then show "((m, pref, f, l + 1), m, pref, f, l) \<in> measure (\<lambda>(m, pref, f, l).
          length (filter (\<lambda>k. 0 \<le> k \<and> k \<le> f) (map fst m)) + length (filter (\<lambda>k. l \<le> k) (map fst m)))"
    by simp
qed

declare region_loop.simps [simp del]

definition renderNext :: "'p cache_env \<Rightarrow> 'p PixCache \<Rightarrow> int \<times> 'p PixCache" where
  "renderNext env s =
     (case next_priority (cache s) (priority s) of
        (Some page, rest) \<Rightarrow> (page, s\<lparr>priority := rest\<rparr>)
      | (None, rest) \<Rightarrow>
          let (f, l) = (if fst (region s) > snd (region s)
                        then (pref_page env, pref_page env) else region s);
              (page, f1, l1) = region_loop (cache s) (pref_page env) f l
          in (page, s\<lparr>priority := rest, region := (f1, l1)\<rparr>))"

text \<open>The loop of \<open>startRendering\<close> over the threads; \<open>i\<close> is the position of the thread.\<close>

fun dispatch ::
  "'p cache_env \<Rightarrow> nat \<Rightarrow> bool option list \<Rightarrow> int \<Rightarrow> 'p PixCache \<Rightarrow> 'p cache_event list \<times> 'p PixCache" where
  "dispatch env i [] allowed_pages s = ([], s)"
| "dispatch env i (t # ts) allowed_pages s =
     (if allowed_pages > 0 \<and> t = Some False then
        (let (page, s1) = renderNext env s
         in if page < 0 \<or> page \<ge> numberOfPages env then ([], s1)
            else
              let (ev, s2) = dispatch env (i + 1) ts (allowed_pages - 1) s1
              in (SetPixCacheThreadPage i page (getResolution env s1 page) # ev, s2))
      else dispatch env (i + 1) ts allowed_pages s)"

definition startRendering :: "'p cache_env \<Rightarrow> 'p PixCache \<Rightarrow> 'p cache_event list \<times> 'p PixCache" where
  "startRendering env s =
     (let (allowed_pages, s1) = limitCacheSize env s
      in if allowed_pages \<le> 0 then ([], s1) else dispatch env 0 (threads env) allowed_pages s1)"

subsection \<open>The accounting of the used memory\<close>

text \<open>The accounting invariant: \<open>usedMemory\<close> is the sum of the sizes of the entries of
  the cache; a null pointer counts 0.\<close>

definition entry_size :: "'p PngPixmap option \<Rightarrow> int" where
  "entry_size e = (case e of None \<Rightarrow> 0 | Some png \<Rightarrow> png_size png)"

definition total_size :: "'p PngPixmap option qmap \<Rightarrow> int" where
  "total_size m = sum_list (map (\<lambda>(k, e). entry_size e) m)"

definition accounted :: "'p PixCache \<Rightarrow> bool" where
  "accounted s = (usedMemory s = total_size (cache s))"

subsection \<open>The state after one eviction, and the budget reached by a scheduling pass\<close>

definition step_state :: "int \<times> int \<times> int \<times> int \<times> 'p PixCache \<Rightarrow> 'p PixCache" where
  "step_state r = snd (snd (snd (snd r)))"

text \<open>The memory test of the code: \<open>usedMemory\<close>, converted to \<open>float\<close>, is not above
  \<open>maxMemory\<close>.\<close>

definition memory_ok :: "'p PixCache \<Rightarrow> bool" where
  "memory_ok s = fle (float_of_int (usedMemory s)) (maxMemory s)"



text \<open>The other integers of the cache are modelled without bounds. They stay within the
  ranges of their C++ types in a scheduling pass when the used memory is accounted for
  and fits a \<open>qint64\<close>, the sizes of the cached images are not negative, the cache holds at
  most \<open>2 ^ 30\<close> pages and there are at most \<open>2 ^ 30\<close> threads, \<open>maxNumber\<close> is an
  \<open>int\<close> of at least \<open>- 2 ^ 30\<close>, and the page numbers (the keys of the cache, the region and the current
  page) are between \<open>- 2 ^ 28\<close> and \<open>2 ^ 28\<close>, so that a sum such as
  \<open>2 * last + 3 * first\<close> fits an \<open>int\<close>.\<close>

definition page_number :: "int \<Rightarrow> bool" where
  "page_number n = (- (2 ^ 28) \<le> n \<and> n \<le> 2 ^ 28)"

definition in_range :: "'p cache_env \<Rightarrow> 'p PixCache \<Rightarrow> bool" where
  "in_range env s =
     (accounted s
      \<and> usedMemory s < 2 ^ 63
      \<and> (\<forall>e\<in>set (cache s). page_number (fst e) \<and> 0 \<le> entry_size (snd e))
      \<and> int (length (cache s)) \<le> 2 ^ 30
      \<and> page_number (fst (region s)) \<and> page_number (snd (region s))
      \<and> page_number (pref_page env)
      \<and> - (2 ^ 30) \<le> maxNumber s \<and> maxNumber s \<le> 2147483647
      \<and> int (length (threads env)) \<le> 2 ^ 30)"

subsection \<open>Concrete runs: one page larger than the memory budget, three pages\<close>

definition env1 :: "nat cache_env" where
  "env1 = \<lparr>pref_page = 0, numberOfPages = 10, threads = [Some False],
           renderer = Some (\<lambda>page res. Some 7), pageSize = (\<lambda>page. (4, 3)), fullPage = True,
           png_bytes = (\<lambda>pix. 100), undefined_conversion = (\<lambda>a. - 2147483648),
           undefined_sum = (\<lambda>a b. (a + b + 2147483648) mod 4294967296 - 2147483648)\<rparr>"

definition cache0 :: "nat PixCache" where
  "cache0 = \<lparr>cache = [], priority = [], region = (1, 0), frame = (8, 6),
             maxMemory = Fin 50, usedMemory = 0, maxNumber = -1\<rparr>"

text \<open>A cache of three pages of 30 bytes each, with a budget of 50 bytes.\<close>

definition png_of :: "int \<Rightarrow> int \<Rightarrow> nat PngPixmap" where
  "png_of page bytes = \<lparr>png_page = page, png_resolution = 2, png_size = bytes, png_pixmap = 7, png_isNull = False\<rparr>"

definition cache3 :: "nat PixCache" where
  "cache3 = \<lparr>cache = [(0, Some (png_of 0 30)), (1, Some (png_of 1 30)), (2, Some (png_of 2 30))],
             priority = [], region = (0, 2), frame = (8, 6),
             maxMemory = Fin 50, usedMemory = 90, maxNumber = -1\<rparr>"

text \<open>Two pages of \<open>8388608\<close> and \<open>8388609\<close> bytes with a budget of \<open>2 ^ 24\<close> bytes: the
  sum \<open>2 ^ 24 + 1\<close> is rounded to \<open>2 ^ 24\<close> when it is converted to \<open>float\<close>.\<close>

definition cache2 :: "nat PixCache" where
  "cache2 = \<lparr>cache = [(1, Some (png_of 1 8388608)), (2, Some (png_of 2 8388609))],
             priority = [], region = (1, 2), frame = (8, 6),
             maxMemory = Fin 16777216, usedMemory = 16777217, maxNumber = -1\<rparr>"

section \<open>Colours in the saved drawings (src/src/drawing/pathcontainer.cpp)\<close>

text \<open>
  A colour is the four 8-bit components that \<open>QColor::rgb()\<close> and \<open>QColor::alpha()\<close>
  return. \<open>QRgb\<close> is a 32-bit unsigned integer, modelled as a natural number with the
  wrap-around of the shift and of the addition written out.
\<close>

record color =
  red :: "8 word"
  green :: "8 word"
  blue :: "8 word"
  alpha :: "8 word"

definition rgb :: "color \<Rightarrow> nat" where
  "rgb c = 255 * 2 ^ 24 + unat (red c) * 2 ^ 16 + unat (green c) * 2 ^ 8 + unat (blue c)"

definition hex_digit :: "nat \<Rightarrow> char" where
  "hex_digit d = ''0123456789abcdef'' ! d"

text \<open>\<open>QString::number(n, 16)\<close>: lower-case digits, no leading zero.\<close>

fun number16 :: "nat \<Rightarrow> string" where
  "number16 n = (if n < 16 then [hex_digit n] else number16 (n div 16) @ [hex_digit (n mod 16)])"

declare number16.simps [simp del]

definition rightJustified :: "nat \<Rightarrow> char \<Rightarrow> bool \<Rightarrow> string \<Rightarrow> string" where
  "rightJustified width fill trunc str =
     (if length str < width then replicate (width - length str) fill @ str
      else if trunc then take width str else str)"

definition color_to_rgba :: "color \<Rightarrow> string" where
  "color_to_rgba c =
     CHR ''#'' # rightJustified 8 CHR ''0'' True
                  (number16 (((rgb c * 2 ^ 8) mod 2 ^ 32 + unat (alpha c)) mod 2 ^ 32))"

definition hex_value :: "char \<Rightarrow> nat option" where
  "hex_value ch =
     (let n = of_char ch :: nat
      in if 48 \<le> n \<and> n \<le> 57 then Some (n - 48)
         else if 97 \<le> n \<and> n \<le> 102 then Some (n - 87)
         else if 65 \<le> n \<and> n \<le> 70 then Some (n - 55)
         else None)"

definition hex_byte :: "char \<Rightarrow> char \<Rightarrow> 8 word option" where
  "hex_byte hi lo =
     (case (hex_value hi, hex_value lo) of
        (Some h, Some l) \<Rightarrow> Some (of_nat (16 * h + l))
      | _ \<Rightarrow> None)"

text \<open>
  The constructor \<open>QColor(const QString &)\<close> belongs to Qt. The model reads the forms
  \<open>#AARRGGBB\<close> and \<open>#RRGGBB\<close>; for every other string (other digit counts, colour names)
  it asks the parameter \<open>other\<close>. \<open>None\<close> is an invalid colour.
\<close>

definition QColor_string :: "(string \<Rightarrow> color option) \<Rightarrow> string \<Rightarrow> color option" where
  "QColor_string other str =
     (case str of
        [h, a1, a2, r1, r2, g1, g2, b1, b2] \<Rightarrow>
          if h = CHR ''#'' then
            (case (hex_byte a1 a2, hex_byte r1 r2, hex_byte g1 g2, hex_byte b1 b2) of
               (Some a, Some r, Some g, Some b) \<Rightarrow> Some \<lparr>red = r, green = g, blue = b, alpha = a\<rparr>
             | _ \<Rightarrow> None)
          else other str
      | [h, r1, r2, g1, g2, b1, b2] \<Rightarrow>
          if h = CHR ''#'' then
            (case (hex_byte r1 r2, hex_byte g1 g2, hex_byte b1 b2) of
               (Some r, Some g, Some b) \<Rightarrow> Some \<lparr>red = r, green = g, blue = b, alpha = 255\<rparr>
             | _ \<Rightarrow> None)
          else other str
      | _ \<Rightarrow> other str)"

definition right :: "nat \<Rightarrow> string \<Rightarrow> string" where
  "right n str = drop (length str - n) str"

definition mid :: "nat \<Rightarrow> nat \<Rightarrow> string \<Rightarrow> string" where
  "mid pos n str = take n (drop pos str)"

definition rgba_to_color :: "(string \<Rightarrow> color option) \<Rightarrow> string \<Rightarrow> color option" where
  "rgba_to_color other str =
     (if length str = 9 then QColor_string other (CHR ''#'' # right 2 str @ mid 1 6 str)
      else QColor_string other str)"

text \<open>The two hexadecimal digits of a byte, as the format \<open>#rrggbbaa\<close> writes them.\<close>

definition hex2 :: "8 word \<Rightarrow> string" where
  "hex2 w = [hex_digit (unat w div 16), hex_digit (unat w mod 16)]"

subsection \<open>The digits of the padded hexadecimal number\<close>

text \<open>\<open>digits k n\<close> are the last \<open>k\<close> hexadecimal digits of \<open>n\<close>.\<close>

fun digits :: "nat \<Rightarrow> nat \<Rightarrow> string" where
  "digits 0 n = []"
| "digits (Suc k) n = digits k (n div 16) @ [hex_digit (n mod 16)]"

section \<open>Properties of the drawing history\<close>

subsection \<open>Auxiliary facts\<close>

lemma takeFirst_times_drop: "takeFirst_times k h = drop k h"
  by (induction k arbitrary: h) (auto simp: drop_Suc)

lemma takeLast_times_take: "takeLast_times k h = take (length h - k) h"
proof (induction k arbitrary: h)
  case 0 then show ?case by simp
next
  case (Suc k)
  have "take (length (butlast h) - k) (butlast h) = take (length h - Suc k) h"
    by (simp add: butlast_conv_take min_def)
  with Suc show ?case by simp
qed

lemma qmap_set_snoc:
  "\<forall>e\<in>set m. fst e < k \<Longrightarrow> qmap_set k v m = m @ [(k, v)]"
  by (induction m) auto

lemma record_all_zip:
  "\<forall>e\<in>set m. fst e < i \<Longrightarrow>
   record_all i xs m = m @ zip (map (\<lambda>j. i + int j) [0..<length xs]) xs"
proof (induction xs arbitrary: i m)
  case Nil then show ?case by simp
next
  case (Cons x xs)
  have m: "qmap_set i x m = m @ [(i, x)]" using Cons.prems by (rule qmap_set_snoc)
  have b: "\<forall>e\<in>set (m @ [(i, x)]). fst e < i + 1" using Cons.prems by auto
  have z: "zip (map (\<lambda>j. i + int j) [0..<length (x # xs)]) (x # xs)
           = (i, x) # zip (map (\<lambda>j. (i + 1) + int j) [0..<length xs]) xs"
    by (simp add: upt_conv_Cons map_Suc_upt[symmetric] comp_def add.assoc del: upt_Suc)
  show ?case using Cons.IH[OF b] m z by simp
qed

lemma insert_entries_zip:
  "int (length pre) = i \<Longrightarrow>
   insert_entries (zip (map (\<lambda>j. i + int j) [0..<length xs]) xs) pre = pre @ xs"
proof (induction xs arbitrary: i pre)
  case Nil then show ?case by (simp add: insert_entries_def)
next
  case (Cons x xs)
  have z: "zip (map (\<lambda>j. i + int j) [0..<length (x # xs)]) (x # xs)
           = (i, x) # zip (map (\<lambda>j. (i + 1) + int j) [0..<length xs]) xs"
    by (simp add: upt_conv_Cons map_Suc_upt[symmetric] comp_def add.assoc del: upt_Suc)
  have i: "insert_at i x pre = pre @ [x]" using Cons.prems by (auto simp: insert_at_def)
  have "insert_entries (zip (map (\<lambda>j. (i + 1) + int j) [0..<length xs]) xs) (pre @ [x]) = (pre @ [x]) @ xs"
    by (rule Cons.IH) (use Cons.prems in simp)
  then show ?case using z i by (simp add: insert_entries_def)
qed

lemma insert_entries_record_all: "insert_entries (record_all 0 xs []) [] = xs"
  using record_all_zip[of "[]" 0 xs] insert_entries_zip[of "[]" 0 xs] by simp

lemma dropOldest_simp:
  "dropOldest n s = s\<lparr>history := drop (nat (int (length (history s)) - inHistory s - max 0 n)) (history s)\<rparr>"
  by (simp add: dropOldest_def takeFirst_times_drop max_def Let_def)

lemma truncateHistory_nonneg:
  "0 \<le> inHistory s \<Longrightarrow>
   truncateHistory hlim s = s\<lparr>history := take (length (history s) - nat (inHistory s)) (history s), inHistory := 0\<rparr>"
  by (cases "inHistory s = 0") (auto simp: truncateHistory_def takeLast_times_take)

lemma limitHistory_last:
  assumes "inHistory s = 0" "1 \<le> hlim" "history s \<noteq> []"
  shows "history (limitHistory hlim s) \<noteq> [] \<and> last (history (limitHistory hlim s)) = last (history s)
         \<and> paths (limitHistory hlim s) = paths s \<and> inHistory (limitHistory hlim s) = 0"
  using assms
  by (auto simp: limitHistory_def clearHistory_def dropOldest_simp max_def last_drop)

lemma indexOf_range: "indexOf x xs < int (length xs) \<and> -1 \<le> indexOf x xs"
  by (induction xs) (auto simp: Let_def)

lemma indexOf_absent: "x \<notin> set xs \<longleftrightarrow> indexOf x xs < 0"
proof (induction xs)
  case Nil then show ?case by simp
next
  case (Cons y ys)
  have "-1 \<le> indexOf x ys" using indexOf_range[of x ys] by simp
  with Cons show ?case by (auto simp: Let_def)
qed

lemma inHistory_dropOldest [simp]: "inHistory (dropOldest n s) = inHistory s"
  by (simp add: dropOldest_def Let_def)

lemma inHistory_applyMicroStep: "inHistory (snd (applyMicroStep hlim s)) = 0"
  by (simp add: applyMicroStep_def Let_def)


lemma limitHistory_forward:
  "inHistory s = 0 \<Longrightarrow>
   limitHistory hlim s =
     (if int (length (history s)) > hlim
      then s\<lparr>history := drop (nat (int (length (history s)) - max 0 hlim)) (history s)\<rparr> else s)"
  by (simp add: limitHistory_def clearHistory_def dropOldest_simp)

lemma eraser_item_miss: "misses hit split it \<Longrightarrow> eraser_item hit split i it del = (it, del)"
proof (cases it)
  case (Group cs)
  assume m: "misses hit split it"
  have "(\<forall>c\<in>set cs. split c = Untouched) \<Longrightarrow> erase_children split cs grp = grp" for grp
    by (induction cs arbitrary: grp) auto
  with m Group show ?thesis by (auto simp: eraser_item_def misses_def)
qed (auto simp: eraser_item_def misses_def)

lemma eraser_loop_miss:
  "\<forall>it\<in>set ps. misses hit split it \<Longrightarrow> eraser_loop hit split i ps del = (ps, del)"
  by (induction ps arbitrary: i del) (auto simp: eraser_item_miss)

lemma eraserMicroStep_miss:
  assumes "\<forall>it\<in>set (paths s). misses hit split it" "history s \<noteq> []"
  shows "eraserMicroStep hit split s = s"
  using assms by (simp add: eraserMicroStep_def eraser_loop_miss)

lemma fold_eraser_miss:
  assumes "\<forall>(hit, split)\<in>set calls. \<forall>it\<in>set (paths s). misses hit split it" "history s \<noteq> []"
  shows "fold (\<lambda>(hit, split). eraserMicroStep hit split) calls s = s"
  using assms by (induction calls) (auto simp: eraserMicroStep_miss)

subsection \<open>undo followed by redo\<close>

text \<open>
  C2. Undo followed by redo should give back the live sequence of every state that the
  mutating operations can reach. In the run \<open>stale_state\<close> it does not: \<open>removeItem\<close>
  has looked up index 2 before \<open>truncateHistory\<close> applied the open micro-step, the applied
  micro-step has shortened the sequence to one item, and index 2 is recorded in the
  history. One undo followed by one redo turns the sequence \<open>[Path 3]\<close> into
  \<open>[Path 3, Path 3]\<close>.
\<close>

theorem undo_redo_stale_index:
  "paths stale_state = [Path 3]
   \<and> inHistory stale_state = 0
   \<and> fst (undo stale_state)
   \<and> fst (redo (snd (undo stale_state)))
   \<and> paths (snd (redo (snd (undo stale_state)))) = [Path 3, Path 3]"
  by code_simp

subsection \<open>clearPaths followed by undo\<close>

text \<open>
  C5. For every state whose cursor is valid and not negative, and for a
  configured history length of at least 1, \<open>clearPaths\<close> followed by one \<open>undo\<close> succeeds
  and gives back the live sequence, same items in the same order.
\<close>

theorem clearPaths_undo:
  assumes "0 \<le> inHistory s" "inHistory s \<le> int (length (history s))" "1 \<le> hlim"
  shows "fst (undo (clearPaths hlim s)) \<and> paths (snd (undo (clearPaths hlim s))) = paths s"
proof -
  define s1 where "s1 = truncateHistory hlim s"
  define step :: "'a DrawHistoryStep" where "step = \<lparr>createdItems = [], deletedItems = record_all 0 (paths s1) []\<rparr>"
  define s2 where "s2 = s1\<lparr>history := history s1 @ [step], paths := []\<rparr>"
  have p1: "paths s1 = paths s" and i1: "inHistory s1 = 0"
    using assms(1) by (simp_all add: s1_def truncateHistory_nonneg)
  have c: "clearPaths hlim s = limitHistory hlim s2"
    by (simp add: clearPaths_def Let_def s1_def s2_def step_def)
  have "inHistory s2 = 0" "history s2 \<noteq> []" "last (history s2) = step" "paths s2 = []"
    using i1 by (simp_all add: s2_def)
  with limitHistory_last[of s2 hlim] assms(3)
  have l: "history (clearPaths hlim s) \<noteq> []" "last (history (clearPaths hlim s)) = step"
          "paths (clearPaths hlim s) = []" "inHistory (clearPaths hlim s) = 0"
    by (simp_all add: c)
  have idx: "history (clearPaths hlim s) ! nat (int (length (history (clearPaths hlim s))) - 1) = step"
  proof -
    have "nat (int (length (history (clearPaths hlim s))) - 1) = length (history (clearPaths hlim s)) - 1"
      by simp
    then show ?thesis using l(1,2) by (simp add: last_conv_nth)
  qed
  have r: "insert_entries (deletedItems step) (remove_keys (createdItems step) []) = paths s"
    by (simp add: step_def remove_keys_def insert_entries_record_all p1)
  show ?thesis
    using l idx r by (simp add: undo_def Let_def)
qed

theorem clearPaths_undo_witness:
  "fst (undo (clearPaths 50 \<lparr>paths = [Path (1::nat), Other 2], history = [], inHistory = 0\<rparr>))
   \<and> paths (snd (undo (clearPaths 50 \<lparr>paths = [Path (1::nat), Other 2], history = [], inHistory = 0\<rparr>)))
       = [Path 1, Other 2]"
  using clearPaths_undo[of "\<lparr>paths = [Path (1::nat), Other 2], history = [], inHistory = 0\<rparr>" 50]
  by simp

text \<open>With a configured history length of 0 the step that \<open>clearPaths\<close> appends is
  dropped at once, \<open>undo\<close> returns false and the sequence stays empty.\<close>

theorem clearPaths_undo_counterexample:
  "undo (clearPaths 0 \<lparr>paths = [Path (1::nat)], history = [], inHistory = 0\<rparr>)
     = (False, \<lparr>paths = [], history = [], inHistory = 0\<rparr>)"
  by (simp add: clearPaths_def truncateHistory_def limitHistory_def clearHistory_def dropOldest_def
      undo_def Let_def)

subsection \<open>A micro-step that erases nothing\<close>

text \<open>
  C6. A micro-step is opened with \<open>startMicroStep\<close>; every call of \<open>eraserMicroStep\<close> in
  it misses every item of the live sequence. Then \<open>applyMicroStep\<close> returns false, the
  live sequence is the one the micro-step started with, the opened step is gone from the
  history, and the cursor is 0.
\<close>

theorem noop_microStep:
  assumes "\<forall>(hit, split)\<in>set calls. \<forall>it\<in>set (paths (startMicroStep hlim s)). misses hit split it"
  shows "applyMicroStep hlim (fold (\<lambda>(hit, split). eraserMicroStep hit split) calls (startMicroStep hlim s))
         = (False, \<lparr>paths = paths (startMicroStep hlim s),
                    history = history (truncateHistory hlim s),
                    inHistory = 0\<rparr>)"
proof -
  have h: "history (startMicroStep hlim s) \<noteq> []" by (simp add: startMicroStep_def Let_def)
  have f: "fold (\<lambda>(hit, split). eraserMicroStep hit split) calls (startMicroStep hlim s) = startMicroStep hlim s"
    using assms h by (rule fold_eraser_miss)
  show ?thesis unfolding f
    by (simp add: applyMicroStep_def startMicroStep_def Let_def)
qed

theorem noop_microStep_witness:
  "applyMicroStep 50 (fold (\<lambda>(hit, split). eraserMicroStep hit split) [(\<lambda>it. False, eraseAll), (hitAB, \<lambda>p. Untouched)]
       (startMicroStep 50 three_paths))
   = (False, \<lparr>paths = [Path 1, Path 2, Path 3], history = history three_paths, inHistory = 0\<rparr>)"
proof -
  have p: "paths (startMicroStep 50 three_paths) = [Path 1, Path 2, Path 3]" by code_simp
  have m: "\<forall>(hit, split)\<in>set [(\<lambda>it. False, eraseAll), (hitAB, \<lambda>p. Untouched)].
             \<forall>it\<in>set (paths (startMicroStep 50 three_paths)). misses hit split it"
    unfolding p by (simp add: misses_def hitAB_def)
  have h: "history (truncateHistory 50 three_paths) = history three_paths" by code_simp
  show ?thesis using noop_microStep[OF m] p h by simp
qed

subsection \<open>Micro-step operations outside a micro-step\<close>

text \<open>The two guards \<open>inHistory != -1\<close>: the guard of \<open>eraserMicroStep\<close> returns at once,
  the guard of \<open>applyMicroStep\<close> assigns 0 to the cursor and returns true.\<close>

lemma misuse_guards:
  assumes "inHistory s \<noteq> -1"
  shows "eraserMicroStep hit split s = s
         \<and> applyMicroStep hlim s = (True, s\<lparr>inHistory := 0\<rparr>)"
  using assms by (simp add: eraserMicroStep_def applyMicroStep_def)

text \<open>
  C7. Outside a micro-step, \<open>eraserMicroStep\<close> and \<open>applyMicroStep\<close> should leave the live
  sequence, the history and the cursor as they are. In the run \<open>one_undone\<close> (two paths
  drawn, the second undone, cursor 1) \<open>eraserMicroStep\<close> does, and \<open>applyMicroStep\<close> does
  not: it returns true and sets the cursor to 0 while the undone step stays in the
  history, so the history no longer describes the live sequence. The next \<open>undo\<close> removes
  nothing, and \<open>undo\<close> followed by \<open>redo\<close> turns the sequence \<open>[Path 1]\<close> into
  \<open>[Path 1, Path 2]\<close>.
\<close>

theorem applyMicroStep_misuse_cursor:
  "inHistory one_undone = 1
   \<and> paths one_undone = [Path 1]
   \<and> length (history one_undone) = 2
   \<and> eraserMicroStep hitAB eraseAll one_undone = one_undone
   \<and> applyMicroStep 50 one_undone = (True, one_undone\<lparr>inHistory := 0\<rparr>)
   \<and> snd (applyMicroStep 50 one_undone) \<noteq> one_undone
   \<and> paths (snd (undo (snd (applyMicroStep 50 one_undone)))) = [Path 1]
   \<and> paths (snd (redo (snd (undo (snd (applyMicroStep 50 one_undone)))))) = [Path 1, Path 2]"
  by code_simp

subsection \<open>removeItem\<close>







subsection \<open>Replaying one step and the whole history\<close>

lemma remove_keys_Nil [simp]: "remove_keys [] xs = xs"
  by (simp add: remove_keys_def)

lemma remove_keys_Cons [simp]: "remove_keys ((k, v) # m) xs = removeAt k (remove_keys m xs)"
  by (simp add: remove_keys_def)

lemma insert_entries_Nil [simp]: "insert_entries [] xs = xs"
  by (simp add: insert_entries_def)

lemma insert_entries_Cons [simp]: "insert_entries ((k, v) # m) xs = insert_entries m (insert_at k v xs)"
  by (simp add: insert_entries_def)

lemma removeAt_insert_at: "0 \<le> k \<Longrightarrow> k \<le> int (length xs) \<Longrightarrow> removeAt k (insert_at k v xs) = xs"
  by (auto simp: removeAt_def insert_at_def nat_le_iff min_def)

lemma insert_at_nth: "0 \<le> k \<Longrightarrow> k \<le> int (length xs) \<Longrightarrow> insert_at k v xs ! nat k = v"
  by (auto simp: insert_at_def nth_append nat_le_iff)

lemma length_insert_at [simp]: "length (insert_at k v xs) = Suc (length xs)"
  by (auto simp: insert_at_def)

lemma insert_at_removeAt:
  "0 \<le> k \<Longrightarrow> k < int (length xs) \<Longrightarrow> xs ! nat k = v \<Longrightarrow> insert_at k v (removeAt k xs) = xs"
proof -
  assume a: "0 \<le> k" "k < int (length xs)" "xs ! nat k = v"
  then have n: "nat k < length xs" by simp
  have "take (nat k) xs @ xs ! nat k # drop (Suc (nat k)) xs = xs" using n by (rule id_take_nth_drop[symmetric])
  then show ?thesis using a n
    by (cases "k = 0") (auto simp: insert_at_def removeAt_def min_def nat_le_iff)
qed

lemma length_removeAt: "0 \<le> k \<Longrightarrow> k < int (length xs) \<Longrightarrow> length (removeAt k xs) = length xs - 1"
  by (auto simp: removeAt_def)

lemma insert_then_remove:
  "insertable m xs \<Longrightarrow> removable m (insert_entries m xs) \<and> remove_keys m (insert_entries m xs) = xs"
proof (induction m arbitrary: xs)
  case Nil then show ?case by simp
next
  case (Cons e m)
  obtain k v where e: "e = (k, v)" by (cases e)
  have k: "0 \<le> k" "k \<le> int (length xs)" and i: "insertable m (insert_at k v xs)"
    using Cons.prems e by simp_all
  note ih = Cons.IH[OF i]
  show ?case using ih k e by (simp add: removeAt_insert_at insert_at_nth)
qed

lemma remove_then_insert:
  "removable m ps \<Longrightarrow> insertable m (remove_keys m ps) \<and> insert_entries m (remove_keys m ps) = ps"
proof (induction m arbitrary: ps)
  case Nil then show ?case by simp
next
  case (Cons e m)
  obtain k v where e: "e = (k, v)" by (cases e)
  have r: "removable m ps" and k: "0 \<le> k" "k < int (length (remove_keys m ps))"
    and v: "remove_keys m ps ! nat k = v"
    using Cons.prems e by simp_all
  note ih = Cons.IH[OF r]
  have b: "insert_at k v (removeAt k (remove_keys m ps)) = remove_keys m ps"
    using k v by (rule insert_at_removeAt)
  have l: "k \<le> int (length (removeAt k (remove_keys m ps)))"
    using k by (simp add: length_removeAt)
  show ?case using ih k e b l by simp
qed

lemma undo_then_redo:
  assumes "undoable st ps"
  shows "redoable st (undo_paths st ps) \<and> redo_paths st (undo_paths st ps) = ps"
proof -
  have c: "removable (createdItems st) ps"
    and d: "insertable (deletedItems st) (remove_keys (createdItems st) ps)"
    using assms by (simp_all add: undoable_def)
  note a = remove_then_insert[OF c] and b = insert_then_remove[OF d]
  show ?thesis using a b by (simp add: redoable_def undo_paths_def redo_paths_def)
qed

lemma redo_then_undo:
  assumes "redoable st ps"
  shows "undoable st (redo_paths st ps) \<and> undo_paths st (redo_paths st ps) = ps"
proof -
  have c: "removable (deletedItems st) ps"
    and d: "insertable (createdItems st) (remove_keys (deletedItems st) ps)"
    using assms by (simp_all add: redoable_def)
  note a = remove_then_insert[OF c] and b = insert_then_remove[OF d]
  show ?thesis using a b by (simp add: undoable_def undo_paths_def redo_paths_def)
qed

lemma undo_step:
  assumes "consistent s" "inHistory s < int (length (history s))"
  defines "st \<equiv> history s ! (length (history s) - nat (inHistory s) - 1)"
  shows "undo s = (True, s\<lparr>paths := undo_paths st (paths s), inHistory := inHistory s + 1\<rparr>)"
    and "consistent (s\<lparr>paths := undo_paths st (paths s), inHistory := inHistory s + 1\<rparr>)"
    and "redo (s\<lparr>paths := undo_paths st (paths s), inHistory := inHistory s + 1\<rparr>) = (True, s)"
proof -
  define n where "n = length (history s) - nat (inHistory s) - 1"
  have i0: "0 \<le> inHistory s" using assms(1) by (simp add: consistent_def)
  have n: "n < length (history s)" "Suc n = length (history s) - nat (inHistory s)"
    using assms(2) i0 by (auto simp: n_def)
  have st: "st = history s ! n" by (simp add: st_def n_def)
  have idx: "nat (int (length (history s)) - (inHistory s + 1)) = n"
    using i0 assms(2) by (simp add: n_def nat_diff_distrib)
  have idx2: "length (history s) - nat (inHistory s + 1) = n"
    using i0 assms(2) by (simp add: n_def nat_add_distrib)
  have dn: "done_steps s = st # rev (take n (history s))"
    unfolding done_steps_def n(2)[symmetric] st using n(1) by (simp add: take_Suc_conv_app_nth)
  have un: "drop n (history s) = st # undone_steps s"
    unfolding undone_steps_def n(2)[symmetric] st using n(1) by (simp add: Cons_nth_drop_Suc)
  have cb: "undoable st (paths s)" "chain_back (undo_paths st (paths s)) (rev (take n (history s)))"
    using assms(1) dn by (simp_all add: consistent_def)
  have cf: "chain_fwd (paths s) (undone_steps s)" using assms(1) by (simp add: consistent_def)
  note ur = undo_then_redo[OF cb(1)]
  show u: "undo s = (True, s\<lparr>paths := undo_paths st (paths s), inHistory := inHistory s + 1\<rparr>)"
    using i0 assms(2) idx st by (simp add: undo_def Let_def undo_paths_def)
  show "consistent (s\<lparr>paths := undo_paths st (paths s), inHistory := inHistory s + 1\<rparr>)"
    using i0 assms(2) cb cf ur un idx2
    by (simp add: consistent_def done_steps_def undone_steps_def)
  have idx3: "nat (int (length (history s)) - (inHistory s + 1)) = n" by (rule idx)
  show "redo (s\<lparr>paths := undo_paths st (paths s), inHistory := inHistory s + 1\<rparr>) = (True, s)"
    using i0 idx3 st ur by (simp add: redo_def Let_def redo_paths_def[symmetric])
qed

lemma redo_step:
  assumes "consistent s" "0 < inHistory s"
  defines "st \<equiv> history s ! (length (history s) - nat (inHistory s))"
  shows "redo s = (True, s\<lparr>paths := redo_paths st (paths s), inHistory := inHistory s - 1\<rparr>)"
    and "consistent (s\<lparr>paths := redo_paths st (paths s), inHistory := inHistory s - 1\<rparr>)"
proof -
  define n where "n = length (history s) - nat (inHistory s)"
  have il: "inHistory s \<le> int (length (history s))" using assms(1) by (simp add: consistent_def)
  have n: "n < length (history s)" using assms(2) il by (auto simp: n_def)
  have st: "st = history s ! n" by (simp add: st_def n_def)
  have idx: "nat (int (length (history s)) - inHistory s) = n"
    using assms(2) il by (simp add: n_def nat_diff_distrib)
  have idx2: "length (history s) - nat (inHistory s - 1) = Suc n"
    using assms(2) il by (auto simp: n_def nat_diff_distrib)
  have un: "undone_steps s = st # drop (Suc n) (history s)"
    unfolding undone_steps_def n_def[symmetric] st using n by (simp add: Cons_nth_drop_Suc)
  have cf: "redoable st (paths s)" "chain_fwd (redo_paths st (paths s)) (drop (Suc n) (history s))"
    using assms(1) un by (simp_all add: consistent_def)
  have cb: "chain_back (paths s) (rev (take n (history s)))"
    using assms(1) by (simp add: consistent_def done_steps_def n_def)
  note ru = redo_then_undo[OF cf(1)]
  show "redo s = (True, s\<lparr>paths := redo_paths st (paths s), inHistory := inHistory s - 1\<rparr>)"
    using assms(2) idx st by (simp add: redo_def Let_def redo_paths_def)
  show "consistent (s\<lparr>paths := redo_paths st (paths s), inHistory := inHistory s - 1\<rparr>)"
    using assms(2) il cf cb ru idx2 n st
    by (simp add: consistent_def done_steps_def undone_steps_def take_Suc_conv_app_nth)
qed

lemma consistent_undo: "consistent s \<Longrightarrow> consistent (snd (undo s))"
proof (cases "inHistory s < int (length (history s))")
  case True
  assume "consistent s"
  then show ?thesis using undo_step(1,2)[OF _ True] by simp
next
  case False
  assume "consistent s"
  then show ?thesis using False by (simp add: undo_def)
qed

lemma consistent_redo: "consistent s \<Longrightarrow> consistent (snd (redo s))"
proof (cases "0 < inHistory s")
  case True
  assume "consistent s"
  then show ?thesis using redo_step[OF _ True] by simp
next
  case False
  assume "consistent s"
  then show ?thesis using False by (simp add: redo_def)
qed

lemma undo_n_consistent:
  "consistent s \<Longrightarrow> inHistory s + int k \<le> int (length (history s)) \<Longrightarrow>
   consistent (undo_n k s) \<and> inHistory (undo_n k s) = inHistory s + int k
   \<and> history (undo_n k s) = history s"
proof (induction k)
  case 0 then show ?case by (simp add: undo_n_def)
next
  case (Suc k)
  define t where "t = undo_n k s"
  have t: "consistent t" "inHistory t = inHistory s + int k" "history t = history s"
    using Suc by (simp_all add: t_def)
  have lt: "inHistory t < int (length (history t))" using t Suc.prems(2) by simp
  have "undo_n (Suc k) s = snd (undo t)" by (simp add: undo_n_def t_def)
  then show ?case using undo_step(1,2)[OF t(1) lt] t by simp
qed

lemma undo_redo_n:
  "consistent s \<Longrightarrow> inHistory s + int k \<le> int (length (history s)) \<Longrightarrow>
   redo_n k (undo_n k s) = s"
proof (induction k)
  case 0 then show ?case by (simp add: undo_n_def redo_n_def)
next
  case (Suc k)
  define t where "t = undo_n k s"
  have le: "inHistory s + int k \<le> int (length (history s))" using Suc.prems(2) by simp
  have t: "consistent t" "inHistory t = inHistory s + int k" "history t = history s"
    using undo_n_consistent[OF Suc.prems(1) le] by (simp_all add: t_def)
  have lt: "inHistory t < int (length (history t))" using t Suc.prems(2) by simp
  have u: "undo_n (Suc k) s = snd (undo t)" by (simp add: undo_n_def t_def)
  have r: "snd (redo (snd (undo t))) = t" using undo_step(1,3)[OF t(1) lt] by simp
  have "redo_n (Suc k) (undo_n (Suc k) s) = redo_n k (snd (redo (snd (undo t))))"
    unfolding u redo_n_def by (simp only: funpow_Suc_right comp_def)
  also have "\<dots> = redo_n k (undo_n k s)" by (simp only: r t_def[symmetric])
  also have "\<dots> = s" using Suc.IH[OF Suc.prems(1) le] .
  finally show ?case .
qed

lemma chain_back_take: "chain_back ps xs \<Longrightarrow> chain_back ps (take n xs)"
proof (induction xs arbitrary: ps n)
  case Nil then show ?case by simp
next
  case (Cons st xs)
  then show ?case by (cases n) auto
qed

lemma consistent_forward:
  "inHistory s = 0 \<Longrightarrow> consistent s = chain_back (paths s) (rev (history s))"
  by (simp add: consistent_def done_steps_def undone_steps_def)

lemma consistent_truncate:
  assumes "consistent s"
  shows "truncateHistory hlim s = s\<lparr>history := take (length (history s) - nat (inHistory s)) (history s), inHistory := 0\<rparr>"
    and "chain_back (paths s) (rev (history (truncateHistory hlim s)))"
proof -
  have i0: "0 \<le> inHistory s" using assms by (simp add: consistent_def)
  show t: "truncateHistory hlim s = s\<lparr>history := take (length (history s) - nat (inHistory s)) (history s), inHistory := 0\<rparr>"
    using i0 by (rule truncateHistory_nonneg)
  show "chain_back (paths s) (rev (history (truncateHistory hlim s)))"
    unfolding t using assms by (simp add: consistent_def done_steps_def)
qed

lemma consistent_limitHistory:
  assumes "inHistory s = 0" "chain_back (paths s) (rev (history s))"
  shows "consistent (limitHistory hlim s)"
proof -
  have "chain_back (paths s) (rev (drop n (history s)))" for n
    using chain_back_take[OF assms(2), of "length (history s) - n"] by (simp add: rev_drop)
  then show ?thesis using assms
    by (simp add: limitHistory_forward consistent_forward)
qed

lemma indexOf_present:
  "x \<in> set xs \<Longrightarrow> 0 \<le> indexOf x xs \<and> indexOf x xs < int (length xs) \<and> xs ! nat (indexOf x xs) = x"
proof (induction xs)
  case Nil then show ?case by simp
next
  case (Cons y ys)
  show ?case
  proof (cases "x = y")
    case True then show ?thesis by simp
  next
    case False
    then have "x \<in> set ys" using Cons.prems by simp
    then have "0 \<le> indexOf x ys \<and> indexOf x ys < int (length ys) \<and> ys ! nat (indexOf x ys) = x"
      by (rule Cons.IH)
    then show ?thesis using False by (simp add: Let_def nat_add_distrib)
  qed
qed

lemma insertable_zip:
  "int (length pre) = i \<Longrightarrow> insertable (zip (map (\<lambda>j. i + int j) [0..<length xs]) xs) pre"
proof (induction xs arbitrary: i pre)
  case Nil then show ?case by simp
next
  case (Cons x xs)
  have z: "zip (map (\<lambda>j. i + int j) [0..<length (x # xs)]) (x # xs)
           = (i, x) # zip (map (\<lambda>j. (i + 1) + int j) [0..<length xs]) xs"
    by (simp add: upt_conv_Cons map_Suc_upt[symmetric] comp_def add.assoc del: upt_Suc)
  have a: "insert_at i x pre = pre @ [x]" using Cons.prems by (auto simp: insert_at_def)
  have "insertable (zip (map (\<lambda>j. (i + 1) + int j) [0..<length xs]) xs) (pre @ [x])"
    by (rule Cons.IH) (use Cons.prems in simp)
  then show ?case unfolding z using Cons.prems a by simp
qed

subsection \<open>The index shifts of a micro-step\<close>

lemma numbered_Nil [simp]: "numbered j [] = []"
  by (simp add: numbered_def)

lemma numbered_Cons: "numbered j (y # ys) = (j, y) # numbered (j + 1) ys"
  by (simp add: numbered_def upt_conv_Cons map_Suc_upt[symmetric] comp_def add.assoc del: upt_Suc)

lemma numbered_keys: "e \<in> set (numbered j ys) \<Longrightarrow> j \<le> fst e \<and> fst e < j + int (length ys)"
  by (induction ys arbitrary: j) (fastforce simp: numbered_Cons)+

lemma insertable_append:
  "insertable (a @ b) xs = (insertable a xs \<and> insertable b (insert_entries a xs))"
  by (induction a arbitrary: xs) auto

lemma insert_entries_append: "insert_entries (a @ b) xs = insert_entries b (insert_entries a xs)"
  by (simp add: insert_entries_def)

lemma insert_at_middle: "int (length pre) = j \<Longrightarrow> insert_at j y (pre @ rest) = pre @ y # rest"
  by (cases "rest = []") (auto simp: insert_at_def)

lemma numbered_insert:
  "int (length pre) = j \<Longrightarrow>
   insertable (numbered j ys) (pre @ rest) \<and> insert_entries (numbered j ys) (pre @ rest) = pre @ ys @ rest"
proof (induction ys arbitrary: j pre)
  case Nil then show ?case by simp
next
  case (Cons y ys)
  have a: "insert_at j y (pre @ rest) = (pre @ [y]) @ rest"
    using Cons.prems by (simp add: insert_at_middle)
  have "insertable (numbered (j + 1) ys) ((pre @ [y]) @ rest)
        \<and> insert_entries (numbered (j + 1) ys) ((pre @ [y]) @ rest) = (pre @ [y]) @ ys @ rest"
    by (rule Cons.IH) (use Cons.prems in simp)
  then show ?case using Cons.prems a by (simp add: numbered_Cons)
qed

lemma removeAt_middle: "int (length pre) = i \<Longrightarrow> removeAt i (pre @ x # rest) = pre @ rest"
  by (auto simp: removeAt_def)

lemma nth_middle_int: "int (length pre) = i \<Longrightarrow> (pre @ x # rest) ! nat i = x"
  by auto

lemma value_at_middle: "int (length pre) = i \<Longrightarrow> value_at i (pre @ x # rest) = x"
  by (auto simp: value_at_def)

lemma kept_Nil [simp]: "kept i ps [] = ps"
  by (induction ps arbitrary: i) auto

lemma rebuilt_Nil [simp]: "rebuilt i ps [] = ps"
  by (induction ps arbitrary: i) auto

lemma kept_same: "erased_from i xs ps del \<Longrightarrow> kept i ps del = kept i xs del"
  by (induction i xs ps del rule: erased_from.induct) (auto split: if_splits)

lemma kept_plain: "erased_from i xs ps del \<Longrightarrow> \<forall>x\<in>set xs. plain x"
  by (induction i xs ps del rule: erased_from.induct) (auto split: if_splits)

lemma erased_Nil: "erased_from i xs ps [] \<Longrightarrow> ps = xs"
  by (induction i xs ps "[] :: 'a gitem qmap" rule: erased_from.induct) auto

lemma remove_keys_kept:
  "erased_from i xs ps del \<Longrightarrow> int (length pre) = i \<Longrightarrow>
   remove_keys del (pre @ ps) = pre @ kept i ps del"
proof (induction i xs ps del arbitrary: pre rule: erased_from.induct)
  case (1 i del)
  then show ?case by simp
next
  case (2 i x xs p ps)
  have "remove_keys [] ((pre @ [p]) @ ps) = (pre @ [p]) @ kept (i + 1) ps []"
    by simp
  then show ?case by simp
next
  case (3 i x xs p ps k v del)
  show ?case
  proof (cases "k = i")
    case True
    have e: "erased_from (i + 1) xs ps del" using "3.prems"(1) True by simp
    have "remove_keys del ((pre @ [p]) @ ps) = (pre @ [p]) @ kept (i + 1) ps del"
      by (rule "3.IH"(1)[OF True e]) (use "3.prems"(2) in simp)
    then show ?thesis using True "3.prems"(2) by (simp add: removeAt_middle)
  next
    case False
    have e: "erased_from (i + 1) xs ps ((k, v) # del)" using "3.prems"(1) False by simp
    have "remove_keys ((k, v) # del) ((pre @ [p]) @ ps) = (pre @ [p]) @ kept (i + 1) ps ((k, v) # del)"
      by (rule "3.IH"(2)[OF False e]) (use "3.prems"(2) in simp)
    then show ?thesis using False by simp
  qed
qed simp_all

text \<open>The recorded items can be removed from the original sequence, and what is left
  is what is left of the current sequence.\<close>

lemma remove_keys_original:
  "erased_from i xs ps del \<Longrightarrow> int (length pre) = i \<Longrightarrow>
   removable del (pre @ xs) \<and> remove_keys del (pre @ xs) = pre @ kept i xs del"
proof (induction i xs ps del arbitrary: pre rule: erased_from.induct)
  case (1 i del)
  then show ?case by simp
next
  case (2 i x xs p ps)
  have "removable [] ((pre @ [x]) @ xs)" by simp
  then show ?case by simp
next
  case (3 i x xs p ps k v del)
  show ?case
  proof (cases "k = i")
    case True
    have e: "erased_from (i + 1) xs ps del" and v: "v = x" using "3.prems"(1) True by simp_all
    have ih: "removable del ((pre @ [x]) @ xs)
          \<and> remove_keys del ((pre @ [x]) @ xs) = (pre @ [x]) @ kept (i + 1) xs del"
      by (rule "3.IH"(1)[OF True e]) (use "3.prems"(2) in simp)
    have n: "(pre @ x # kept (i + 1) xs del) ! nat i = x"
      using "3.prems"(2) by (rule nth_middle_int)
    have i0: "0 \<le> i" using "3.prems"(2) by auto
    show ?thesis using True v ih n i0 "3.prems"(2) by (simp add: removeAt_middle)
  next
    case False
    have e: "erased_from (i + 1) xs ps ((k, v) # del)" using "3.prems"(1) False by simp
    have "removable ((k, v) # del) ((pre @ [x]) @ xs)
          \<and> remove_keys ((k, v) # del) ((pre @ [x]) @ xs) = (pre @ [x]) @ kept (i + 1) xs ((k, v) # del)"
      by (rule "3.IH"(2)[OF False e]) (use "3.prems"(2) in simp)
    then show ?thesis using False by simp
  qed
qed simp_all

lemma add_children_numbered:
  "\<forall>e\<in>set cr. fst e < k + shift \<Longrightarrow>
   add_children k shift cs cr = (shift + int (length cs), cr @ numbered (k + shift) (map Path cs))"
proof (induction cs arbitrary: shift cr)
  case Nil then show ?case by simp
next
  case (Cons c cs)
  have q: "qmap_set (k + shift) (Path c) cr = cr @ [(k + shift, Path c)]"
    using Cons.prems by (rule qmap_set_snoc)
  have b: "\<forall>e\<in>set (cr @ [(k + shift, Path c)]). fst e < k + (shift + 1)"
    using Cons.prems by auto
  show ?case using Cons.IH[OF b] q by (simp add: numbered_Cons add.assoc)
qed

lemma fix_step_created:
  "erased_from i xs ps del \<Longrightarrow> int (length pre) = i \<Longrightarrow> \<forall>e\<in>set cr. fst e < i + shift \<Longrightarrow>
   fix_step (pre @ ps) del shift cr = cr @ created_from (i + shift) i ps del"
proof (induction i xs ps del arbitrary: pre shift cr rule: erased_from.induct)
  case (1 i del)
  then show ?case by simp
next
  case (2 i x xs p ps)
  then show ?case by simp
next
  case (3 i x xs p ps k v del)
  show ?case
  proof (cases "k = i")
    case True
    have e: "erased_from (i + 1) xs ps del" and np: "\<not> plain p" using "3.prems"(1) True by simp_all
    have va: "value_at i (pre @ p # ps) = p" using "3.prems"(2) by (rule value_at_middle)
    show ?thesis
    proof (cases p)
      case (Group cs)
      have ac: "add_children i shift cs cr = (shift + int (length cs), cr @ numbered (i + shift) (map Path cs))"
        using "3.prems"(3) by (rule add_children_numbered)
      have b: "\<forall>e\<in>set (cr @ numbered (i + shift) (map Path cs)). fst e < (i + 1) + (shift + int (length cs) - 1)"
        using "3.prems"(3) numbered_keys[of _ "i + shift" "map Path cs"] by fastforce
      have "fix_step ((pre @ [p]) @ ps) del (shift + int (length cs) - 1) (cr @ numbered (i + shift) (map Path cs))
            = (cr @ numbered (i + shift) (map Path cs)) @ created_from ((i + 1) + (shift + int (length cs) - 1)) (i + 1) ps del"
        by (rule "3.IH"(1)[OF True e _ b]) (use "3.prems"(2) in simp)
      then show ?thesis using True va Group ac
        by (simp add: children_def add.assoc add.commute add.left_commute)
    next
      case Null
      have b: "\<forall>e\<in>set cr. fst e < (i + 1) + (shift - 1)" using "3.prems"(3) by simp
      have "fix_step ((pre @ [p]) @ ps) del (shift - 1) cr
            = cr @ created_from ((i + 1) + (shift - 1)) (i + 1) ps del"
        by (rule "3.IH"(1)[OF True e _ b]) (use "3.prems"(2) in simp)
      then show ?thesis using True va Null by (simp add: children_def)
    qed (use np in \<open>simp_all add: plain_def\<close>)
  next
    case False
    have e: "erased_from (i + 1) xs ps ((k, v) # del)" using "3.prems"(1) False by simp
    have b: "\<forall>e\<in>set cr. fst e < (i + 1) + shift" using "3.prems"(3) by auto
    have "fix_step ((pre @ [p]) @ ps) ((k, v) # del) shift cr
          = cr @ created_from ((i + 1) + shift) (i + 1) ps ((k, v) # del)"
      by (rule "3.IH"(2)[OF False e _ b]) (use "3.prems"(2) in simp)
    then show ?thesis using False by (simp add: add.assoc add.commute add.left_commute)
  qed
qed simp_all

lemma created_insert:
  "erased_from i xs ps del \<Longrightarrow> int (length pre) = j \<Longrightarrow>
   insertable (created_from j i ps del) (pre @ kept i ps del)
   \<and> insert_entries (created_from j i ps del) (pre @ kept i ps del) = pre @ rebuilt i ps del"
proof (induction i xs ps del arbitrary: pre j rule: erased_from.induct)
  case (1 i del)
  then show ?case by simp
next
  case (2 i x xs p ps)
  show ?case by simp
next
  case (3 i x xs p ps k v del)
  show ?case
  proof (cases "k = i")
    case True
    have e: "erased_from (i + 1) xs ps del" using "3.prems"(1) True by simp
    define cs where "cs = children p"
    note n = numbered_insert[OF "3.prems"(2), of cs "kept (i + 1) ps del"]
    have "insertable (created_from (j + int (length cs)) (i + 1) ps del) ((pre @ cs) @ kept (i + 1) ps del)
          \<and> insert_entries (created_from (j + int (length cs)) (i + 1) ps del) ((pre @ cs) @ kept (i + 1) ps del)
            = (pre @ cs) @ rebuilt (i + 1) ps del"
      by (rule "3.IH"(1)[OF True e]) (use "3.prems"(2) in simp)
    then show ?thesis using True n
      by (simp add: cs_def[symmetric] insertable_append insert_entries_append)
  next
    case False
    have e: "erased_from (i + 1) xs ps ((k, v) # del)" using "3.prems"(1) False by simp
    have "insertable (created_from (j + 1) (i + 1) ps ((k, v) # del)) ((pre @ [p]) @ kept (i + 1) ps ((k, v) # del))
          \<and> insert_entries (created_from (j + 1) (i + 1) ps ((k, v) # del)) ((pre @ [p]) @ kept (i + 1) ps ((k, v) # del))
            = (pre @ [p]) @ rebuilt (i + 1) ps ((k, v) # del)"
      by (rule "3.IH"(2)[OF False e]) (use "3.prems"(2) in simp)
    then show ?thesis using False by simp
  qed
qed simp_all

lemma rebuilt_plain: "erased_from i xs ps del \<Longrightarrow> \<forall>x\<in>set (rebuilt i ps del). plain x"
  by (induction i xs ps del rule: erased_from.induct)
     (auto simp: children_def plain_def split: if_splits gitem.splits)

lemma created_plain: "\<forall>e\<in>set (created_from j i ps del). plain (snd e)"
proof (induction j i ps del rule: created_from.induct)
  case (3 j i p ps k v del)
  have "\<forall>e\<in>set (numbered j (children p)). plain (snd e)"
    by (auto simp: numbered_def children_def plain_def dest!: set_zip_rightD split: gitem.splits)
  then show ?case using 3 by auto
qed simp_all

lemma deleted_plain: "erased_from i xs ps del \<Longrightarrow> \<forall>e\<in>set del. plain (snd e)"
  by (induction i xs ps del rule: erased_from.induct) (auto split: if_splits)

lemma qmap_set_middle:
  "\<forall>e\<in>set pre. fst e < i \<Longrightarrow> (suf = [] \<or> i < fst (hd suf)) \<Longrightarrow>
   qmap_set i v (pre @ suf) = pre @ (i, v) # suf"
proof (induction pre)
  case Nil
  then show ?case by (cases suf) auto
next
  case (Cons e pre)
  then show ?case by (cases e) auto
qed

lemma erased_head_key: "erased_from i xs ps ((k, v) # del) \<Longrightarrow> i \<le> k"
  by (cases xs; cases ps) (auto split: if_splits)

lemma eraser_item_plain:
  assumes "plain p" "\<forall>e\<in>set pre. fst e < i" "suf = [] \<or> i < fst (hd suf)"
  shows "eraser_item hit split i p (pre @ suf) = (p, pre @ suf)
         \<or> (\<exists>p'. \<not> plain p' \<and> eraser_item hit split i p (pre @ suf) = (p', pre @ (i, p) # suf))"
proof (cases p)
  case (Path q)
  note m = qmap_set_middle[OF assms(2,3), of "Path q"]
  show ?thesis
  proof (cases "split q")
    case Erased
    then show ?thesis using Path m by (auto simp: eraser_item_def plain_def)
  next
    case Untouched
    then show ?thesis using Path by (simp add: eraser_item_def)
  next
    case (Pieces cs)
    then show ?thesis using Path m by (auto simp: eraser_item_def plain_def)
  qed
qed (use assms(1) in \<open>simp_all add: eraser_item_def plain_def\<close>)

lemma eraser_item_not_plain:
  "\<not> plain p \<Longrightarrow> \<exists>p'. \<not> plain p' \<and> eraser_item hit split i p del = (p', del)"
  by (cases p) (simp_all add: eraser_item_def plain_def)

lemma eraser_loop_erased:
  "erased_from i xs ps suf \<Longrightarrow> \<forall>e\<in>set pre. fst e < i \<Longrightarrow>
   \<exists>ps' suf'. eraser_loop hit split i ps (pre @ suf) = (ps', pre @ suf') \<and> erased_from i xs ps' suf'"
proof (induction i xs ps suf arbitrary: pre rule: erased_from.induct)
  case (1 i del)
  then show ?case by simp
next
  case (2 i x xs p ps)
  have px: "p = x" "plain x" and e: "erased_from (i + 1) xs ps []" using "2.prems"(1) by simp_all
  have pp: "plain p" using px by simp
  from eraser_item_plain[OF pp "2.prems"(2), of "[]" hit split]
  consider (same) "eraser_item hit split i p (pre @ []) = (p, pre @ [])"
    | (gone) p' where "\<not> plain p'" "eraser_item hit split i p (pre @ []) = (p', pre @ [(i, p)])"
    by auto
  then show ?case
  proof cases
    case same
    have b: "\<forall>e\<in>set pre. fst e < i + 1" using "2.prems"(2) by auto
    from "2.IH"[OF e b] obtain ps' suf' where
      l: "eraser_loop hit split (i + 1) ps (pre @ []) = (ps', pre @ suf')"
      and r: "erased_from (i + 1) xs ps' suf'" by blast
    have "erased_from i (x # xs) (p # ps') suf'"
    proof (cases suf')
      case Nil then show ?thesis using r px by simp
    next
      case (Cons a list)
      obtain k v where a: "a = (k, v)" by (cases a)
      have "i + 1 \<le> k" using r Cons a erased_head_key by blast
      then show ?thesis using r px Cons a by simp
    qed
    then show ?thesis using same l by auto
  next
    case gone
    have b: "\<forall>e\<in>set (pre @ [(i, p)]). fst e < i + 1" using "2.prems"(2) by auto
    from "2.IH"[OF e b] obtain ps' suf' where
      l: "eraser_loop hit split (i + 1) ps ((pre @ [(i, p)]) @ []) = (ps', (pre @ [(i, p)]) @ suf')"
      and r: "erased_from (i + 1) xs ps' suf'" by blast
    have "erased_from i (x # xs) (p' # ps') ((i, p) # suf')" using r px gone(1) by simp
    then show ?thesis using gone(2) l by auto
  qed
next
  case (3 i x xs p ps k v del)
  show ?case
  proof (cases "k = i")
    case True
    have e: "erased_from (i + 1) xs ps del" and f: "v = x" "plain x" "\<not> plain p"
      using "3.prems"(1) True by simp_all
    obtain p' where p': "\<not> plain p'" "eraser_item hit split i p (pre @ (k, v) # del) = (p', pre @ (k, v) # del)"
      using eraser_item_not_plain[OF f(3)] by blast
    have b: "\<forall>e\<in>set (pre @ [(k, v)]). fst e < i + 1" using "3.prems"(2) True by auto
    from "3.IH"(1)[OF True e b] obtain ps' suf' where
      l: "eraser_loop hit split (i + 1) ps ((pre @ [(k, v)]) @ del) = (ps', (pre @ [(k, v)]) @ suf')"
      and r: "erased_from (i + 1) xs ps' suf'" by blast
    have "erased_from i (x # xs) (p' # ps') ((k, v) # suf')" using r f p'(1) True by simp
    then show ?thesis using p'(2) l by auto
  next
    case False
    have e: "erased_from (i + 1) xs ps ((k, v) # del)" and f: "i < k" "p = x" "plain x"
      using "3.prems"(1) False by simp_all
    have pp: "plain p" using f by simp
    have hd: "(k, v) # del = [] \<or> i < fst (hd ((k, v) # del))" using f(1) by simp
    from eraser_item_plain[OF pp "3.prems"(2) hd, of hit split]
    consider (same) "eraser_item hit split i p (pre @ (k, v) # del) = (p, pre @ (k, v) # del)"
      | (gone) p' where "\<not> plain p'"
          "eraser_item hit split i p (pre @ (k, v) # del) = (p', pre @ (i, p) # (k, v) # del)"
      by auto
    then show ?thesis
    proof cases
      case same
      have b: "\<forall>e\<in>set pre. fst e < i + 1" using "3.prems"(2) by auto
      from "3.IH"(2)[OF False e b] obtain ps' suf' where
        l: "eraser_loop hit split (i + 1) ps (pre @ (k, v) # del) = (ps', pre @ suf')"
        and r: "erased_from (i + 1) xs ps' suf'" by blast
      have "erased_from i (x # xs) (p # ps') suf'"
      proof (cases suf')
        case Nil then show ?thesis using r f by simp
      next
        case (Cons a list)
        obtain k' v' where a: "a = (k', v')" by (cases a)
        have "i + 1 \<le> k'" using r Cons a erased_head_key by blast
        then show ?thesis using r f Cons a by simp
      qed
      then show ?thesis using same l by auto
    next
      case gone
      have b: "\<forall>e\<in>set (pre @ [(i, p)]). fst e < i + 1" using "3.prems"(2) by auto
      from "3.IH"(2)[OF False e b] obtain ps' suf' where
        l: "eraser_loop hit split (i + 1) ps ((pre @ [(i, p)]) @ (k, v) # del) = (ps', (pre @ [(i, p)]) @ suf')"
        and r: "erased_from (i + 1) xs ps' suf'" by blast
      have "erased_from i (x # xs) (p' # ps') ((i, p) # suf')" using r f gone(1) by simp
      then show ?thesis using gone(2) l by auto
    qed
  qed
qed simp_all

lemma erased_start: "\<forall>x\<in>set xs. plain x \<Longrightarrow> erased_from i xs xs []"
  by (induction xs arbitrary: i) auto

text \<open>What \<open>applyMicroStep\<close> computes, and that the finished step can be undone.\<close>

lemma apply_result:
  assumes "erased_from 0 xs ps del"
  defines "cr \<equiv> fix_step ps del 0 []"
  defines "new \<equiv> insert_entries cr (remove_keys del ps)"
  shows "undoable \<lparr>createdItems = cr, deletedItems = del\<rparr> new"
    and "undo_paths \<lparr>createdItems = cr, deletedItems = del\<rparr> new = xs"
    and "\<forall>x\<in>set new. plain x"
    and "\<forall>e\<in>set cr. plain (snd e)"
    and "\<forall>e\<in>set del. plain (snd e)"
proof -
  have c: "cr = created_from 0 0 ps del"
    using fix_step_created[OF assms(1), of "[]" "[]" 0] by (simp add: cr_def)
  have u: "remove_keys del ps = kept 0 ps del"
    using remove_keys_kept[OF assms(1), of "[]"] by simp
  have o: "removable del xs" "remove_keys del xs = kept 0 xs del"
    using remove_keys_original[OF assms(1), of "[]"] by simp_all
  have k: "kept 0 ps del = kept 0 xs del" using assms(1) by (rule kept_same)
  have i: "insertable cr (kept 0 ps del)" "insert_entries cr (kept 0 ps del) = rebuilt 0 ps del"
    using created_insert[OF assms(1), of "[]" 0] c by simp_all
  have n: "new = rebuilt 0 ps del" using i(2) u by (simp add: new_def)
  note a = insert_then_remove[OF i(1)]
  note b = remove_then_insert[OF o(1)]
  have rk: "remove_keys cr new = kept 0 xs del" using a n i(2) k by simp
  show "undoable \<lparr>createdItems = cr, deletedItems = del\<rparr> new"
    using a b n i(2) rk o(2) by (simp add: undoable_def)
  show "undo_paths \<lparr>createdItems = cr, deletedItems = del\<rparr> new = xs"
    using b rk o(2) by (simp add: undo_paths_def)
  show "\<forall>x\<in>set new. plain x" unfolding n using assms(1) by (rule rebuilt_plain)
  show "\<forall>e\<in>set cr. plain (snd e)" unfolding c by (rule created_plain)
  show "\<forall>e\<in>set del. plain (snd e)" using assms(1) by (rule deleted_plain)
qed

subsection \<open>undo followed by redo on the states that the operations reach\<close>

lemma set_removeAt: "set (removeAt k xs) \<subseteq> set xs"
  by (auto simp: removeAt_def dest: in_set_takeD in_set_dropD)

lemma set_insert_at: "set (insert_at k v xs) = insert v (set xs)"
proof -
  have "set (take n xs) \<union> set (drop n xs) = set xs" for n
    by (metis append_take_drop_id set_append)
  then show ?thesis by (auto simp: insert_at_def)
qed

lemma set_remove_keys: "set (remove_keys m xs) \<subseteq> set xs"
proof (induction m)
  case Nil then show ?case by simp
next
  case (Cons e m)
  obtain k v where e: "e = (k, v)" by (cases e)
  show ?case using Cons set_removeAt[of k "remove_keys m xs"] e by auto
qed

lemma set_insert_entries: "set (insert_entries m xs) = snd ` set m \<union> set xs"
proof (induction m arbitrary: xs)
  case Nil then show ?case by simp
next
  case (Cons e m)
  obtain k v where e: "e = (k, v)" by (cases e)
  show ?case unfolding e by (simp add: Cons.IH set_insert_at)
qed

lemma plain_undo_paths:
  assumes "\<forall>x\<in>set ps. plain x" "plain_step st"
  shows "\<forall>x\<in>set (undo_paths st ps). plain x"
  using assms set_remove_keys[of "createdItems st" ps]
  by (auto simp: undo_paths_def set_insert_entries plain_step_def)

lemma plain_redo_paths:
  assumes "\<forall>x\<in>set ps. plain x" "plain_step st"
  shows "\<forall>x\<in>set (redo_paths st ps). plain x"
  using assms set_remove_keys[of "deletedItems st" ps]
  by (auto simp: redo_paths_def set_insert_entries plain_step_def)

lemma settled_undo: "settled s \<Longrightarrow> settled (snd (undo s))"
proof (cases "inHistory s < int (length (history s))")
  case True
  assume a: "settled s"
  then have c: "consistent s" by (simp add: settled_def)
  define st where "st = history s ! (length (history s) - nat (inHistory s) - 1)"
  have "0 \<le> inHistory s" using c by (simp add: consistent_def)
  then have "st \<in> set (history s)" unfolding st_def using True by (intro nth_mem) auto
  then have p: "plain_step st" using a by (simp add: settled_def)
  show ?thesis using undo_step(1,2)[OF c True] a plain_undo_paths[OF _ p, of "paths s"]
    by (simp add: settled_def st_def)
next
  case False
  assume "settled s"
  then show ?thesis using False by (simp add: undo_def)
qed

lemma settled_redo: "settled s \<Longrightarrow> settled (snd (redo s))"
proof (cases "0 < inHistory s")
  case True
  assume a: "settled s"
  then have c: "consistent s" by (simp add: settled_def)
  define st where "st = history s ! (length (history s) - nat (inHistory s))"
  have "inHistory s \<le> int (length (history s))" using c by (simp add: consistent_def)
  then have "st \<in> set (history s)" unfolding st_def using True by (intro nth_mem) auto
  then have p: "plain_step st" using a by (simp add: settled_def)
  show ?thesis using redo_step[OF c True] a plain_redo_paths[OF _ p, of "paths s"]
    by (simp add: settled_def st_def)
next
  case False
  assume "settled s"
  then show ?thesis using False by (simp add: redo_def)
qed

text \<open>A container at the head of its history, described by the replay of the history alone.\<close>

lemma settled_limitHistory:
  assumes "inHistory s = 0" "chain_back (paths s) (rev (history s))"
    "\<forall>x\<in>set (paths s). plain x" "\<forall>st\<in>set (history s). plain_step st"
  shows "settled (limitHistory hlim s)"
proof -
  have c: "consistent (limitHistory hlim s)" using assms(1,2) by (rule consistent_limitHistory)
  have "set (drop n (history s)) \<subseteq> set (history s)" for n by (rule set_drop_subset)
  then show ?thesis using c assms
    by (auto simp: settled_def limitHistory_forward)
qed

lemma settled_truncate:
  assumes "settled s"
  shows "inHistory (truncateHistory hlim s) = 0" "paths (truncateHistory hlim s) = paths s"
    "chain_back (paths s) (rev (history (truncateHistory hlim s)))"
    "\<forall>st\<in>set (history (truncateHistory hlim s)). plain_step st"
proof -
  have c: "consistent s" using assms by (simp add: settled_def)
  note t = consistent_truncate[OF c, of hlim]
  show "inHistory (truncateHistory hlim s) = 0" "paths (truncateHistory hlim s) = paths s"
    unfolding t(1) by simp_all
  show "chain_back (paths s) (rev (history (truncateHistory hlim s)))" by (rule t(2))
  show "\<forall>st\<in>set (history (truncateHistory hlim s)). plain_step st"
    unfolding t(1) using assms by (auto simp: settled_def dest: in_set_takeD)
qed

lemma settled_append_item:
  assumes "settled s" "plain item"
  shows "settled (append_item hlim item s)"
proof -
  define t where "t = truncateHistory hlim s"
  define st :: "'a DrawHistoryStep" where
    "st = \<lparr>createdItems = qmap_set (int (length (paths s))) item [], deletedItems = []\<rparr>"
  note tr = settled_truncate[OF assms(1), of hlim, folded t_def]
  have u: "undoable st (paths s @ [item])" "undo_paths st (paths s @ [item]) = paths s"
    by (simp_all add: st_def undoable_def undo_paths_def removeAt_def nth_append)
  have ps: "plain_step st" using assms(2) by (simp add: st_def plain_step_def)
  have pp: "\<forall>x\<in>set (paths s). plain x" using assms(1) by (simp add: settled_def)
  have "settled (limitHistory hlim (t\<lparr>history := history t @ [st], paths := paths s @ [item]\<rparr>))"
    using tr u ps pp assms(2) by (intro settled_limitHistory) auto
  then show ?thesis using tr(2) by (simp add: append_item_def Let_def t_def st_def)
qed

lemma settled_removeItem:
  assumes "settled s"
  shows "settled (removeItem hlim item s)"
proof (cases "item \<in> set (paths s)")
  case False
  then show ?thesis using assms indexOf_absent[of item "paths s"] by (simp add: removeItem_def)
next
  case True
  define i where "i = indexOf item (paths s)"
  have i: "0 \<le> i" "i < int (length (paths s))" "paths s ! nat i = item"
    using indexOf_present[OF True] by (simp_all add: i_def)
  define t where "t = truncateHistory hlim s"
  define st :: "'a DrawHistoryStep" where
    "st = \<lparr>createdItems = [], deletedItems = qmap_set i item []\<rparr>"
  note tr = settled_truncate[OF assms(1), of hlim, folded t_def]
  have pp: "\<forall>x\<in>set (paths s). plain x" using assms(1) by (simp add: settled_def)
  have l: "i \<le> int (length (removeAt i (paths s)))" using i by (simp add: length_removeAt)
  have u: "undoable st (removeAt i (paths s))" "undo_paths st (removeAt i (paths s)) = paths s"
    using i l by (simp_all add: st_def undoable_def undo_paths_def insert_at_removeAt)
  have ps: "plain_step st" using pp True by (simp add: st_def plain_step_def)
  have pr: "\<forall>x\<in>set (removeAt i (paths s)). plain x" using pp set_removeAt[of i "paths s"] by auto
  have "settled (limitHistory hlim (t\<lparr>paths := removeAt i (paths s), history := history t @ [st]\<rparr>))"
    using tr u ps pr by (intro settled_limitHistory) auto
  then show ?thesis using tr(2) i by (simp add: removeItem_def Let_def t_def st_def i_def)
qed

lemma settled_clearPaths:
  assumes "settled s"
  shows "settled (clearPaths hlim s)"
proof -
  define t where "t = truncateHistory hlim s"
  define st :: "'a DrawHistoryStep" where
    "st = \<lparr>createdItems = [], deletedItems = record_all 0 (paths s) []\<rparr>"
  note tr = settled_truncate[OF assms(1), of hlim, folded t_def]
  have pp: "\<forall>x\<in>set (paths s). plain x" using assms(1) by (simp add: settled_def)
  have r: "record_all 0 (paths s) [] = zip (map (\<lambda>j. 0 + int j) [0..<length (paths s)]) (paths s)"
    using record_all_zip[of "[]" 0 "paths s"] by simp
  have "insertable (record_all 0 (paths s) []) []"
    unfolding r by (rule insertable_zip) simp
  then have u: "undoable st []" "undo_paths st [] = paths s"
    by (simp_all add: st_def undoable_def undo_paths_def insert_entries_record_all)
  have ps: "plain_step st" using pp unfolding st_def plain_step_def r
    by (auto dest!: set_zip_rightD)
  have "settled (limitHistory hlim (t\<lparr>history := history t @ [st], paths := []\<rparr>))"
    using tr u ps by (intro settled_limitHistory) auto
  then show ?thesis using tr(2) by (simp add: clearPaths_def Let_def t_def st_def)
qed

lemma truncate_forward: "inHistory s = 0 \<Longrightarrow> truncateHistory hlim s = s"
  by (simp add: truncateHistory_def)

lemma erasing_apply:
  assumes "erasing s"
  shows "settled (snd (applyMicroStep hlim s))"
proof -
  define h where "h = butlast (history s)"
  define del where "del = deletedItems (last (history s))"
  from assms obtain xs where
    i: "inHistory s = -1" and ne: "history s \<noteq> []" and cr0: "createdItems (last (history s)) = []"
    and ph: "\<forall>st\<in>set h. plain_step st"
    and cb: "chain_back xs (rev h)" and er: "erased_from 0 xs (paths s) del"
    by (auto simp: erasing_def h_def del_def)
  have px: "\<forall>x\<in>set xs. plain x" using er by (rule kept_plain)
  show ?thesis
  proof (cases "del = []")
    case True
    have "paths s = xs" using er True erased_Nil by blast
    then have "settled (s\<lparr>inHistory := 0, history := h\<rparr>)"
      using cb px ph by (simp add: settled_def consistent_forward)
    then show ?thesis using i True by (simp add: applyMicroStep_def del_def h_def Let_def)
  next
    case False
    define cr where "cr = fix_step (paths s) del 0 []"
    define new where "new = insert_entries cr (remove_keys del (paths s))"
    define st :: "'a DrawHistoryStep" where "st = \<lparr>createdItems = cr, deletedItems = del\<rparr>"
    note a = apply_result[OF er, folded cr_def new_def, folded st_def]
    have st': "(last (history s))\<lparr>createdItems := cr\<rparr> = st"
      by (simp add: st_def del_def)
    define s1 where "s1 = s\<lparr>paths := new, history := h @ [st], inHistory := 0\<rparr>"
    have ps: "plain_step st" using a(4,5) by (simp add: plain_step_def st_def)
    have "settled (limitHistory hlim s1)"
      using a(1,2,3) cb ph ps by (intro settled_limitHistory) (auto simp: s1_def)
    moreover have "limitHistory hlim s1 = (if int (length (history s1)) > hlim then dropOldest hlim s1 else s1)"
      by (simp add: limitHistory_def clearHistory_def s1_def)
    moreover have "snd (applyMicroStep hlim s) = (if int (length (history s1)) > hlim then dropOldest hlim s1 else s1)"
      using i False cr0 st'
      by (simp add: applyMicroStep_def Let_def del_def[symmetric] cr_def[symmetric] new_def[symmetric]
          h_def[symmetric] s1_def)
    ultimately show ?thesis by simp
  qed
qed

lemma settled_start:
  assumes "settled s"
  shows "erasing (startMicroStep hlim s)"
proof -
  note tr = settled_truncate[OF assms, of hlim]
  have pp: "\<forall>x\<in>set (paths s). plain x" using assms by (simp add: settled_def)
  have "erased_from 0 (paths s) (paths s) []" using pp by (rule erased_start)
  then show ?thesis using tr
    by (auto simp: erasing_def startMicroStep_def Let_def)
qed

lemma erasing_eraser:
  assumes "erasing s"
  shows "erasing (eraserMicroStep hit split s)"
proof -
  from assms obtain xs where
    i: "inHistory s = -1" and ne: "history s \<noteq> []" and cr0: "createdItems (last (history s)) = []"
    and ph: "\<forall>st\<in>set (butlast (history s)). plain_step st"
    and cb: "chain_back xs (rev (butlast (history s)))"
    and er: "erased_from 0 xs (paths s) (deletedItems (last (history s)))"
    by (auto simp: erasing_def)
  from eraser_loop_erased[OF er, of "[]" hit split] obtain ps' del' where
    l: "eraser_loop hit split 0 (paths s) (deletedItems (last (history s))) = (ps', del')"
    and e: "erased_from 0 xs ps' del'" by auto
  show ?thesis using i cr0 ph cb e l
    by (auto simp: erasing_def eraserMicroStep_def)
qed

lemma erasing_truncate:
  assumes "erasing s"
  shows "settled (truncateHistory hlim s)" "inHistory (truncateHistory hlim s) = 0"
proof -
  have i: "inHistory s = -1" using assms by (simp add: erasing_def)
  show "settled (truncateHistory hlim s)" using erasing_apply[OF assms, of hlim] i
    by (simp add: truncateHistory_def)
  show "inHistory (truncateHistory hlim s) = 0" using i
    by (simp add: truncateHistory_def inHistory_applyMicroStep)
qed

lemma append_item_truncate:
  "inHistory (truncateHistory hlim s) = 0 \<Longrightarrow>
   append_item hlim item (truncateHistory hlim s) = append_item hlim item s"
  by (simp add: append_item_def truncate_forward)

lemma clearPaths_truncate:
  "inHistory (truncateHistory hlim s) = 0 \<Longrightarrow>
   clearPaths hlim (truncateHistory hlim s) = clearPaths hlim s"
  by (simp add: clearPaths_def truncate_forward)

lemma startMicroStep_truncate:
  "inHistory (truncateHistory hlim s) = 0 \<Longrightarrow>
   startMicroStep hlim (truncateHistory hlim s) = startMicroStep hlim s"
  by (simp add: startMicroStep_def truncate_forward)

lemma settled_cursor: "settled s \<Longrightarrow> 0 \<le> inHistory s"
  by (simp add: settled_def consistent_def)

lemma reachable_sound: "reachable hlim s \<Longrightarrow> sound s"
proof (induction rule: reachable.induct)
  case reach_empty
  show ?case by (simp add: sound_def settled_def consistent_def done_steps_def undone_steps_def)
next
  case (reach_append s item)
  show ?case
  proof (cases "settled s")
    case True
    then show ?thesis using reach_append by (simp add: sound_def settled_append_item)
  next
    case False
    then have e: "erasing s" using reach_append by (simp add: sound_def)
    have "settled (append_item hlim item (truncateHistory hlim s))"
      using erasing_truncate(1)[OF e] reach_append(2) by (rule settled_append_item)
    then show ?thesis using erasing_truncate(2)[OF e] by (simp add: sound_def append_item_truncate)
  qed
next
  case (reach_remove s item)
  then have "settled s" by (auto simp: sound_def erasing_def)
  then show ?case by (simp add: sound_def settled_removeItem)
next
  case (reach_clear s)
  show ?case
  proof (cases "settled s")
    case True
    then show ?thesis by (simp add: sound_def settled_clearPaths)
  next
    case False
    then have e: "erasing s" using reach_clear by (simp add: sound_def)
    have "settled (clearPaths hlim (truncateHistory hlim s))"
      using erasing_truncate(1)[OF e] by (rule settled_clearPaths)
    then show ?thesis using erasing_truncate(2)[OF e] by (simp add: sound_def clearPaths_truncate)
  qed
next
  case (reach_undo s)
  show ?case
  proof (cases "settled s")
    case True
    then show ?thesis by (simp add: sound_def settled_undo)
  next
    case False
    then have e: "erasing s" using reach_undo by (simp add: sound_def)
    then have "undo s = (False, s)" by (simp add: erasing_def undo_def)
    then show ?thesis using e by (simp add: sound_def)
  qed
next
  case (reach_redo s)
  show ?case
  proof (cases "settled s")
    case True
    then show ?thesis by (simp add: sound_def settled_redo)
  next
    case False
    then have e: "erasing s" using reach_redo by (simp add: sound_def)
    then have "redo s = (False, s)" by (simp add: erasing_def redo_def)
    then show ?thesis using e by (simp add: sound_def)
  qed
next
  case (reach_start s)
  show ?case
  proof (cases "settled s")
    case True
    then show ?thesis by (simp add: sound_def settled_start)
  next
    case False
    then have e: "erasing s" using reach_start by (simp add: sound_def)
    have "erasing (startMicroStep hlim (truncateHistory hlim s))"
      using erasing_truncate(1)[OF e] by (rule settled_start)
    then show ?thesis using erasing_truncate(2)[OF e] by (simp add: sound_def startMicroStep_truncate)
  qed
next
  case (reach_eraser s hit split)
  show ?case
  proof (cases "settled s")
    case True
    then have "inHistory s \<noteq> -1" using settled_cursor[OF True] by simp
    then have "eraserMicroStep hit split s = s" by (simp add: eraserMicroStep_def)
    then show ?thesis using True by (simp add: sound_def)
  next
    case False
    then have e: "erasing s" using reach_eraser by (simp add: sound_def)
    then show ?thesis by (simp add: sound_def erasing_eraser)
  qed
next
  case (reach_apply s)
  show ?case
  proof (cases "settled s")
    case True
    then have "inHistory s = 0" using settled_cursor[OF True] reach_apply(2) by auto
    then have "snd (applyMicroStep hlim s) = s" by (simp add: applyMicroStep_def)
    then show ?thesis using True by (simp add: sound_def)
  next
    case False
    then have e: "erasing s" using reach_apply by (simp add: sound_def)
    then show ?thesis by (simp add: sound_def erasing_apply)
  qed
qed

text \<open>
  For every state that the operations reach from the empty container (with
  \<open>removeItem\<close> not called while a micro-step is open), when no micro-step is open and
  \<open>k\<close> steps lie behind the cursor: \<open>k\<close> calls of \<open>undo\<close> all succeed, and \<open>k\<close> calls of
  \<open>redo\<close> after them give back the container, live sequence included.
\<close>

theorem undo_redo_reachable:
  assumes "reachable hlim s" "0 \<le> inHistory s" "inHistory s + int k \<le> int (length (history s))"
  shows "inHistory (undo_n k s) = inHistory s + int k \<and> redo_n k (undo_n k s) = s"
proof -
  have "sound s" using assms(1) by (rule reachable_sound)
  then have "consistent s" using assms(2) by (auto simp: sound_def settled_def erasing_def)
  then show ?thesis using undo_n_consistent[OF _ assms(3)] undo_redo_n[OF _ assms(3)] by simp
qed

lemma erased_twice_reachable: "reachable 50 erased_twice"
proof -
  have f: "reachable 50 four_items"
    unfolding four_items_def empty_container_def
    by (intro reach_append reach_empty) (simp_all add: plain_def)
  have i: "inHistory (eraserMicroStep (\<lambda>it. True) split1
             (eraserMicroStep (\<lambda>it. True) split1 (startMicroStep 50 four_items))) = -1"
    by code_simp
  show ?thesis unfolding erased_twice_def
    by (intro reach_apply reach_eraser reach_start f disjI1 i)
qed

theorem undo_redo_reachable_witness:
  "paths erased_twice = [Path 121, Path 122, Other 3, Path 41]
   \<and> paths (undo_n 1 erased_twice) = [Path 1, Path 2, Other 3, Path 4]
   \<and> inHistory (undo_n 2 erased_twice) = 2
   \<and> redo_n 2 (undo_n 2 erased_twice) = erased_twice"
proof -
  have c: "0 \<le> inHistory erased_twice" by code_simp
  have l: "inHistory erased_twice + int 2 \<le> int (length (history erased_twice))" by code_simp
  have i: "inHistory erased_twice = 0" by code_simp
  have p: "paths erased_twice = [Path 121, Path 122, Other 3, Path 41]" by code_simp
  have q: "paths (undo_n 1 erased_twice) = [Path 1, Path 2, Other 3, Path 4]"
    unfolding undo_n_def One_nat_def funpow.simps comp_def id_def by code_simp
  show ?thesis using undo_redo_reachable[OF erased_twice_reachable c l] i p q by simp
qed

section \<open>Properties of the render cache\<close>

subsection \<open>Auxiliary facts\<close>

lemma qmap_get_set: "qmap_get k (qmap_set k v m) = Some v"
  by (induction m) auto

lemma compatible_store:
  "compatible (cache (store (mkPng env pix page r) page s)) page r = Some (mkPng env pix page r)"
  by (simp add: compatible_def store_def Let_def qmap_get_set mkPng_def MAX_RESOLUTION_DEVIATION_def)

lemma png_pixmap_mkPng: "png_pixmap (mkPng env pix page r) = pix"
  by (simp add: mkPng_def)

lemma total_size_set:
  "total_size (qmap_set k (Some png) m) = total_size m - entry_size (cache_value m k) + png_size png"
  by (induction m) (auto simp: total_size_def cache_value_def entry_size_def)

lemma total_size_remove:
  "total_size (qmap_remove k m) = total_size m - entry_size (cache_value m k)"
  by (induction m) (auto simp: total_size_def cache_value_def entry_size_def)

lemma total_size_tl: "m \<noteq> [] \<Longrightarrow> total_size (tl m) = total_size m - entry_size (snd (hd m))"
  by (cases m) (auto simp: total_size_def)

lemma total_size_butlast: "m \<noteq> [] \<Longrightarrow> total_size (butlast m) = total_size m - entry_size (snd (last m))"
proof (induction m)
  case Nil then show ?case by simp
next
  case (Cons a m)
  then show ?case by (cases "m = []") (auto simp: total_size_def case_prod_beta)
qed

lemma accounted_store: "accounted s \<Longrightarrow> accounted (store png page s)"
  by (auto simp: accounted_def store_def total_size_set entry_size_def split: option.splits)

lemma accounted_clear: "accounted (clear env s)"
  by (simp add: accounted_def clear_def total_size_def)

lemma accounted_pixmap: "accounted s \<Longrightarrow> accounted (snd (pixmap env page res s))"
  by (auto simp: pixmap_def Let_def accounted_store split: option.splits)

lemma accounted_requestPage: "accounted s \<Longrightarrow> accounted (snd (requestPage env page res cp s))"
  by (auto simp: requestPage_def accounted_store split: option.splits)

lemma accounted_remove_null:
  "accounted s \<Longrightarrow> cache_value (cache s) k = None \<Longrightarrow> accounted (s\<lparr>cache := qmap_remove k (cache s)\<rparr>)"
  by (simp add: accounted_def total_size_remove entry_size_def)

lemma accounted_receiveData: "accounted s \<Longrightarrow> accounted (snd (receiveData env data s))"
  by (cases data) (simp_all add: receiveData_def accounted_store accounted_remove_null)

lemma accounted_evict_step:
  assumes "accounted s" "cache s \<noteq> []"
  shows "accounted (step_state (evict_step env f l a c s))"
  using assms
  by (auto simp: step_state_def evict_step_def erase_edge_def account_removed_def Let_def accounted_def
      total_size_tl total_size_butlast entry_size_def split: option.splits)

lemma accounted_evict_loop:
  "accounted s \<Longrightarrow> accounted (snd (evict_loop env f l a c s))"
proof (induction env f l a c s rule: evict_loop.induct)
  case (1 env f l a c s)
  show ?case
  proof (cases "good_enough env f l s")
    case True
    then show ?thesis using "1.prems" by (simp add: evict_loop.simps)
  next
    case False
    then have ne: "cache s \<noteq> []" by (auto simp: good_enough_def)
    obtain f1 l1 a1 c1 s1 where e: "evict_step env f l a c s = (f1, l1, a1, c1, s1)"
      by (metis prod_cases5)
    have acc: "accounted s1" using accounted_evict_step[OF "1.prems" ne, of env f l a c] e
      by (simp add: step_state_def)
    show ?thesis
    proof (cases "a1 < int (length (threads env)) \<and> c1 > 0")
      case True
      have "accounted (snd (evict_loop env f1 l1 a1 c1 s1))"
        using "1.IH"[OF False refl e[symmetric] refl refl refl True acc] .
      then show ?thesis using False e True by (simp add: evict_loop.simps[of env f l a c s])
    next
      case F: False
      show ?thesis using False e F acc
        by (auto simp: evict_loop.simps[of env f l a c s] accounted_def)
    qed
  qed
qed

lemma accounted_region: "accounted (s\<lparr>region := r\<rparr>) = accounted s"
  by (simp add: accounted_def)

lemma accounted_limitCacheSize:
  assumes "accounted s"
  shows "accounted (snd (limitCacheSize env s))"
proof -
  define s1 where "s1 = (if fst (region s) > snd (region s)
                         then s\<lparr>region := (pref_page env, pref_page env)\<rparr> else s)"
  have a1: "accounted s1" using assms by (simp add: s1_def accounted_region)
  have "accounted (snd (evict_loop env f l a c s1))" for f l a c
    using a1 by (rule accounted_evict_loop)
  then show ?thesis
    using assms a1 unfolding limitCacheSize_def Let_def s1_def[symmetric]
    by (simp add: accounted_clear)
qed

subsection \<open>Rounding to single precision\<close>

lemma round_even_err: "\<bar>real_of_int (round_even y) - y\<bar> \<le> 1 / 2"
  unfolding round_even_def Let_def by (auto; linarith)

lemma round_even_nonneg: "0 \<le> y \<Longrightarrow> 0 \<le> round_even y"
  unfolding round_even_def Let_def by (auto; linarith)

lemma round_even_nonpos: "y \<le> 0 \<Longrightarrow> round_even y \<le> 0"
  unfolding round_even_def Let_def by (auto; linarith)

lemma round_even_ge: "real_of_int n \<le> y \<Longrightarrow> n \<le> round_even y"
  unfolding round_even_def Let_def by (auto; linarith)

lemma grow_bounds: "0 < b \<Longrightarrow> b \<le> x \<Longrightarrow> b \<le> grow b x \<and> grow b x \<le> x"
proof (induction b x rule: grow.induct)
  case (1 b x)
  show ?case
  proof (cases "0 < b \<and> 2 * b \<le> x")
    case True
    then have "2 * b \<le> grow (2 * b) x \<and> grow (2 * b) x \<le> x" using "1.IH" by simp
    then show ?thesis using True "1.prems" by (simp add: grow.simps[of b x])
  next
    case False
    then show ?thesis using "1.prems" by (simp add: grow.simps[of b x])
  qed
qed

lemma shrink_bounds: "0 < b \<Longrightarrow> 0 < shrink n b x \<and> shrink n b x \<le> max x (b / 2 ^ n)"
proof (induction n arbitrary: b)
  case 0 then show ?case by simp
next
  case (Suc n)
  show ?case
  proof (cases "x < b")
    case True
    have "0 < shrink n (b / 2) x \<and> shrink n (b / 2) x \<le> max x (b / 2 / 2 ^ n)"
      using Suc.IH[of "b / 2"] Suc.prems by simp
    then show ?thesis using True by simp
  next
    case False
    then show ?thesis using Suc.prems by simp
  qed
qed

lemma binade_pos: "0 < binade x"
  using grow_bounds[of 1 "\<bar>x\<bar>"] shrink_bounds[of 1 126 "\<bar>x\<bar>"]
  by (auto simp: binade_def)

lemma binade_le: "binade x \<le> max \<bar>x\<bar> (1 / 2 ^ 126)"
  using grow_bounds[of 1 "\<bar>x\<bar>"] shrink_bounds[of 1 126 "\<bar>x\<bar>"]
  by (auto simp: binade_def)

lemma binade_ge_1: "1 \<le> \<bar>x\<bar> \<Longrightarrow> 1 \<le> binade x \<and> binade x \<le> \<bar>x\<bar>"
  using grow_bounds[of 1 "\<bar>x\<bar>"] by (simp add: binade_def)


lemma float_round_bound:
  assumes "\<bar>x\<bar> \<le> B" "1 / 2 ^ 126 \<le> B" "B \<le> 2 ^ 126"
  shows "\<exists>v. float_round x = Fin v \<and> \<bar>v\<bar> \<le> B * (1 + 1 / 2 ^ 24)
             \<and> (x \<le> 0 \<longrightarrow> v \<le> 0) \<and> (0 \<le> x \<longrightarrow> 0 \<le> v)"
proof -
  define ulp where "ulp = binade x / 2 ^ 23"
  define k where "k = round_even (x / ulp)"
  define y where "y = real_of_int k * ulp"
  have up: "0 < ulp" using binade_pos[of x] by (simp add: ulp_def)
  have "\<bar>real_of_int k - x / ulp\<bar> \<le> 1 / 2" unfolding k_def by (rule round_even_err)
  then have "\<bar>real_of_int k - x / ulp\<bar> * ulp \<le> 1 / 2 * ulp"
    using up by (intro mult_right_mono) auto
  moreover have "\<bar>real_of_int k - x / ulp\<bar> * ulp = \<bar>y - x\<bar>"
  proof -
    have "\<bar>real_of_int k - x / ulp\<bar> * ulp = \<bar>(real_of_int k - x / ulp) * ulp\<bar>"
      using up by (simp add: abs_mult)
    also have "(real_of_int k - x / ulp) * ulp = y - x"
      using up by (simp add: y_def left_diff_distrib)
    finally show ?thesis .
  qed
  ultimately have e: "\<bar>y - x\<bar> \<le> ulp / 2" by simp
  have "binade x \<le> B" using binade_le[of x] assms(1,2) by simp
  then have u: "ulp / 2 \<le> B / 2 ^ 24" by (simp add: ulp_def)
  have yb: "\<bar>y\<bar> \<le> B * (1 + 1 / 2 ^ 24)"
  proof -
    have "\<bar>y\<bar> \<le> \<bar>x\<bar> + \<bar>y - x\<bar>" by simp
    also have "\<dots> \<le> B + B / 2 ^ 24" using assms(1) e u by linarith
    finally show ?thesis by (simp add: distrib_left)
  qed
  have "B * (1 + 1 / 2 ^ 24) \<le> B * 2" using assms(2) by (intro mult_left_mono) auto
  also have "\<dots> \<le> 2 ^ 126 * 2" using assms(3) by simp
  also have "\<dots> \<le> FLT_MAX" by (simp add: FLT_MAX_def)
  finally have "\<bar>y\<bar> \<le> FLT_MAX" using yb by simp
  then have f: "float_round x = Fin y"
    unfolding float_round_def Let_def ulp_def[symmetric] k_def[symmetric] y_def[symmetric]
    by auto
  have n: "x \<le> 0 \<longrightarrow> y \<le> 0"
  proof
    assume "x \<le> 0"
    then have "x / ulp \<le> 0" using up by (simp add: divide_le_0_iff)
    then have "k \<le> 0" unfolding k_def by (rule round_even_nonpos)
    then show "y \<le> 0" using up by (simp add: y_def mult_le_0_iff)
  qed
  have p: "0 \<le> x \<longrightarrow> 0 \<le> y"
  proof
    assume "0 \<le> x"
    then have "0 \<le> x / ulp" using up by simp
    then have "0 \<le> k" unfolding k_def by (rule round_even_nonneg)
    then show "0 \<le> y" using up by (simp add: y_def)
  qed
  show ?thesis using f yb n p by blast
qed

text \<open>A value of at least 1 is rounded to an infinity or to a value of at least 1, and
  it exceeds its rounded value by at most one part in \<open>2 ^ 24\<close>.\<close>

lemma float_round_ge_1:
  assumes "1 \<le> x"
  shows "float_round x = PInf \<or> (\<exists>v. float_round x = Fin v \<and> 1 \<le> v \<and> x \<le> v * (1 + 1 / 2 ^ 24))"
proof -
  define ulp where "ulp = binade x / 2 ^ 23"
  define k where "k = round_even (x / ulp)"
  define y where "y = real_of_int k * ulp"
  have b: "1 \<le> binade x" "binade x \<le> x" using binade_ge_1[of x] assms by simp_all
  have up: "0 < ulp" using b by (simp add: ulp_def)
  have "\<bar>real_of_int k - x / ulp\<bar> \<le> 1 / 2" unfolding k_def by (rule round_even_err)
  then have "\<bar>real_of_int k - x / ulp\<bar> * ulp \<le> 1 / 2 * ulp"
    using up by (intro mult_right_mono) auto
  moreover have "\<bar>real_of_int k - x / ulp\<bar> * ulp = \<bar>y - x\<bar>"
  proof -
    have "\<bar>real_of_int k - x / ulp\<bar> * ulp = \<bar>(real_of_int k - x / ulp) * ulp\<bar>"
      using up by (simp add: abs_mult)
    also have "(real_of_int k - x / ulp) * ulp = y - x"
      using up by (simp add: y_def left_diff_distrib)
    finally show ?thesis .
  qed
  ultimately have e: "\<bar>y - x\<bar> \<le> ulp / 2" by simp
  have "real_of_int (2 ^ 23) \<le> x / ulp" using b by (simp add: ulp_def le_divide_eq)
  then have "2 ^ 23 \<le> k" unfolding k_def by (rule round_even_ge)
  then have "real_of_int (2 ^ 23) \<le> real_of_int k" by linarith
  then have "2 ^ 23 * ulp \<le> y" using up by (simp add: y_def)
  then have yb: "binade x \<le> y" by (simp add: ulp_def)
  have "x \<le> y + ulp / 2" using e by linarith
  also have "ulp / 2 = binade x / 2 ^ 24" by (simp add: ulp_def)
  also have "y + binade x / 2 ^ 24 \<le> y + y / 2 ^ 24" using yb by (simp add: divide_right_mono)
  finally have xy: "x \<le> y * (1 + 1 / 2 ^ 24)" by (simp add: distrib_left)
  have pos: "\<not> y < - FLT_MAX" using yb b by (simp add: FLT_MAX_def)
  have "float_round x = (if FLT_MAX < y then PInf else Fin y)"
    unfolding float_round_def Let_def ulp_def[symmetric] k_def[symmetric] y_def[symmetric]
    using pos by simp
  then show ?thesis using yb b xy by auto
qed

lemma float_of_int_pos:
  assumes "0 < n" "n \<le> N" "1 \<le> N" "N \<le> 2 ^ 64"
  shows "\<exists>v. float_of_int n = Fin v \<and> 1 \<le> v \<and> v \<le> real_of_int N * (1 + 1 / 2 ^ 24)"
proof -
  have a: "\<bar>real_of_int n\<bar> \<le> real_of_int N" using assms(1,2) by simp
  have b: "1 / 2 ^ 126 \<le> real_of_int N"
  proof -
    have "(1::real) / 2 ^ 126 \<le> 1" by simp
    also have "\<dots> \<le> real_of_int N" using assms(3) by simp
    finally show ?thesis .
  qed
  have c: "real_of_int N \<le> 2 ^ 126"
  proof -
    have "real_of_int N \<le> real_of_int (2 ^ 64)" using assms(4) by linarith
    also have "\<dots> \<le> 2 ^ 126" by simp
    finally show ?thesis .
  qed
  obtain v where v: "float_round (real_of_int n) = Fin v" "\<bar>v\<bar> \<le> real_of_int N * (1 + 1 / 2 ^ 24)"
    using float_round_bound[OF a b c] by blast
  have "1 \<le> real_of_int n" using assms(1) by simp
  then have "1 \<le> v" using float_round_ge_1[of "real_of_int n"] v(1) by auto
  then show ?thesis using v by (auto simp: float_of_int_def)
qed


subsection \<open>The quotient of limitCacheSize\<close>

text \<open>A budget that is not negative is a finite value or the positive infinity.\<close>

lemma budget_cases:
  assumes "fle (Fin 0) m"
  obtains M where "m = Fin M" "0 \<le> M" | "m = PInf"
  using assms by (cases m) (auto simp: fle_def)

lemma float_round_not_NaN: "float_round x \<noteq> NaN"
  by (simp add: float_round_def Let_def)

lemma memory_ok_inf: "maxMemory s = PInf \<Longrightarrow> memory_ok s"
  using float_round_not_NaN[of "real_of_int (usedMemory s)"]
  by (cases "float_round (real_of_int (usedMemory s))") (auto simp: memory_ok_def float_of_int_def fle_def)

text \<open>When the used memory fails the memory test, the quotient is in the range of \<open>int\<close>
  and not positive.\<close>

lemma memory_slides_over:
  assumes "fle (Fin 0) (maxMemory s)" "0 < usedMemory s" "usedMemory s < 2 ^ 63" "0 < c" "c \<le> 2 ^ 30"
    and "\<not> memory_ok s"
  shows "- 2147483648 \<le> memory_slides env s c \<and> memory_slides env s c \<le> 0"
proof -
  obtain M where M: "maxMemory s = Fin M" "0 \<le> M"
    using assms(1,6) memory_ok_inf[of s] by (auto elim: budget_cases)
  define u where "u = usedMemory s"
  define e :: real where "e = 1 + 1 / 2 ^ 24"
  have e1: "1 \<le> e" "e \<le> 2" "0 < e" by (simp_all add: e_def)
  have e4: "2 ^ 30 * e * e * e * e \<le> (2 ^ 31 :: real)" by (simp add: e_def)
  obtain uf where uf: "float_of_int u = Fin uf" "1 \<le> uf" "uf \<le> 2 ^ 63 * e"
    using float_of_int_pos[of u "2 ^ 63"] assms(2,3) by (auto simp: e_def u_def)
  obtain cf where cf: "float_of_int c = Fin cf" "1 \<le> cf" "cf \<le> 2 ^ 30 * e"
    using float_of_int_pos[of c "2 ^ 30"] assms(4,5) by (auto simp: e_def)
  have over: "M < uf" using assms(6) uf(1) M(1) by (simp add: memory_ok_def fle_def u_def)
  have M0: "0 \<le> M" using M(2) .
  have u126: "uf \<le> 2 ^ 126"
  proof -
    have "uf \<le> 2 ^ 63 * 2" using uf(3) e1(2) by simp
    also have "\<dots> \<le> (2 ^ 126 :: real)" by simp
    finally show ?thesis .
  qed
  have "\<bar>M - uf\<bar> \<le> uf" using over M0 by simp
  moreover have "1 / 2 ^ 126 \<le> uf" using uf(2) by (simp add: order_trans[of _ 1])
  ultimately obtain dv where dv: "float_round (M - uf) = Fin dv" "\<bar>dv\<bar> \<le> uf * e" "dv \<le> 0"
    using float_round_bound[of "M - uf" uf] u126 over by (auto simp: e_def)
  define B2 where "B2 = uf * e * (2 ^ 30 * e)"
  have "\<bar>dv * cf\<bar> = \<bar>dv\<bar> * cf" using cf(2) by (simp add: abs_mult)
  also have "\<dots> \<le> uf * e * (2 ^ 30 * e)"
    using dv(2) cf(2,3) by (intro mult_mono) auto
  finally have x2: "\<bar>dv * cf\<bar> \<le> B2" by (simp add: B2_def)
  have x2n: "dv * cf \<le> 0" using dv(3) cf(2) by (simp add: mult_le_0_iff)
  have B2lo: "1 \<le> B2"
  proof -
    have "1 * 1 * (1 * 1) \<le> uf * e * (2 ^ 30 * e)"
      using uf(2) e1(1) by (intro mult_mono) auto
    then show ?thesis by (simp add: B2_def)
  qed
  have B2hi: "B2 \<le> 2 ^ 126"
  proof -
    have "uf * e * (2 ^ 30 * e) \<le> (2 ^ 63 * 2) * 2 * (2 ^ 30 * 2)"
      using uf(2,3) e1 by (intro mult_mono) auto
    also have "\<dots> \<le> (2 ^ 126 :: real)" by simp
    finally show ?thesis by (simp add: B2_def)
  qed
  have "1 / 2 ^ 126 \<le> B2" using B2lo by (simp add: order_trans[of _ 1])
  then obtain pv where pv: "float_round (dv * cf) = Fin pv" "\<bar>pv\<bar> \<le> B2 * e" "pv \<le> 0"
    using float_round_bound[of "dv * cf" B2] x2 x2n B2hi by (auto simp: e_def)
  define B3 where "B3 = 2 ^ 30 * e * e * e"
  have "\<bar>pv / uf\<bar> = \<bar>pv\<bar> / uf" using uf(2) by simp
  also have "\<dots> \<le> B2 * e / uf" using pv(2) uf(2) by (simp add: divide_right_mono)
  also have "\<dots> = B3" using uf(2) by (simp add: B2_def B3_def)
  finally have x3: "\<bar>pv / uf\<bar> \<le> B3" .
  have x3n: "pv / uf \<le> 0" using pv(3) uf(2) by (simp add: divide_le_0_iff)
  have B3lo: "1 / 2 ^ 126 \<le> B3" by (simp add: B3_def e_def)
  have B3hi: "B3 \<le> 2 ^ 126" by (simp add: B3_def e_def)
  obtain qv where qv: "float_round (pv / uf) = Fin qv" "\<bar>qv\<bar> \<le> B3 * e" "qv \<le> 0"
    using float_round_bound[OF x3 B3lo B3hi] x3n by (auto simp: e_def)
  have "\<bar>qv\<bar> \<le> 2 ^ 31" using qv(2) e4 by (simp add: B3_def)
  then have r: "- (2 ^ 31) \<le> qv" by linarith
  have q: "fdiv (fmul (fsub (Fin M) (float_of_int u)) (float_of_int c)) (float_of_int u) = Fin qv"
    using uf cf dv(1) pv(1) qv(1) by (simp add: fsub_def fmul_def fdiv_def)
  have t: "- 2147483648 \<le> to_int qv \<and> to_int qv \<le> 0"
    using r qv(3) by (auto simp: to_int_def; linarith)
  show ?thesis unfolding memory_slides_def M(1) u_def[symmetric] q
    using t by (simp add: float_to_int_def)
qed

lemma memory_slides_pos:
  assumes "1 \<le> memory_slides env s c" "0 < usedMemory s" "0 < c"
    and "fle (Fin 0) (maxMemory s)" "usedMemory s < 2 ^ 63" "c \<le> 2 ^ 30"
  shows "memory_ok s"
  using memory_slides_over[OF assms(4,2,5,3,6), of env] assms(1) by linarith




subsection \<open>The eviction loop and the memory budget\<close>








subsection \<open>The memory budget after a scheduling pass\<close>




text \<open>With two pages of \<open>8388608\<close> and \<open>8388609\<close> bytes and a budget of \<open>2 ^ 24\<close> bytes the
  pass evicts nothing either: the used memory \<open>2 ^ 24 + 1\<close> is \<open>2 ^ 24\<close> as a \<open>float\<close>,
  the quotient is 0 and the exit test of the loop holds. One byte above the budget
  stays cached, with two entries and no running thread.\<close>

lemma startRendering_rounding:
  "in_range env1 cache2
   \<and> snd (startRendering env1 cache2) = cache2
   \<and> memory_ok cache2
   \<and> maxMemory cache2 = Fin 16777216
   \<and> usedMemory cache2 = 16777217"
proof -
  have r: "in_range env1 cache2"
    by (simp add: in_range_def accounted_def total_size_def page_number_def cache2_def env1_def
        entry_size_def png_of_def)
  have f1: "float_of_int 16777217 = Fin 16777216" by code_simp
  have f2: "float_of_int 2 = Fin 2" by code_simp
  have f3: "float_round 0 = Fin 0" by code_simp
  have ms: "memory_slides env1 cache2 2 = 0"
    by (simp add: memory_slides_def cache2_def f1 f2 f3 fsub_def fmul_def fdiv_def
        float_to_int_def to_int_def)
  have ge: "good_enough env1 1 2 cache2"
    by (simp add: good_enough_def cache2_def env1_def f1 fle_def flt_def)
  have el: "evict_loop env1 1 2 0 2 cache2 = (0, cache2)"
    using ge by (simp add: evict_loop.simps[of env1 1 2 0 2 cache2])
  have "limitCacheSize env1 cache2 = evict_loop env1 1 2 0 2 cache2"
    using ms
    by (simp add: limitCacheSize_def Let_def running_threads_def flt_def feq_def cache2_def env1_def)
  then have s: "snd (startRendering env1 cache2) = cache2"
    by (simp add: startRendering_def el)
  have m: "memory_ok cache2" by (simp add: memory_ok_def cache2_def f1 fle_def)
  show ?thesis using r s m by (simp add: cache2_def)
qed

text \<open>The quotient at a used memory of \<open>2 ^ 24 + 1\<close> bytes in two pages and a budget of
  \<open>2 ^ 25\<close> bytes is 2 in single precision (it is below 2 in exact arithmetic).\<close>

lemma memory_slides_rounding:
  "memory_slides env1 (cache2\<lparr>maxMemory := Fin 33554432\<rparr>) 2 = 2"
  by code_simp

subsection \<open>pageNumberChanged for a page that is not cached\<close>

text \<open>
  C3. When \<open>pageNumberChanged(page)\<close> is called with a page that is absent
  from the cache, the region becomes \<open>[page, page]\<close>; a priority queue that is not empty
  gets \<open>page\<close> as its first entry (moved there if it was further back), an empty queue
  stays empty; the cache is unchanged and the call starts no timer.
\<close>

theorem pageNumberChanged_absent:
  assumes "\<not> contains (cache s) page"
  shows "fst (pageNumberChanged page s) = []
         \<and> region (snd (pageNumberChanged page s)) = (page, page)
         \<and> priority (snd (pageNumberChanged page s))
             = (if priority s = [] then [] else page # remove1 page (priority s))
         \<and> cache (snd (pageNumberChanged page s)) = cache s"
  using assms by (cases "priority s") (auto simp: pageNumberChanged_def)

theorem pageNumberChanged_absent_witness:
  "fst (pageNumberChanged 3 (cache0\<lparr>priority := [5, 3, 6]\<rparr>)) = []
   \<and> region (snd (pageNumberChanged 3 (cache0\<lparr>priority := [5, 3, 6]\<rparr>))) = (3, 3)
   \<and> priority (snd (pageNumberChanged 3 (cache0\<lparr>priority := [5, 3, 6]\<rparr>))) = [3, 5, 6]"
proof -
  have a: "\<not> contains (cache (cache0\<lparr>priority := [5, 3, 6]\<rparr>)) 3"
    by (simp add: cache0_def contains_def)
  have p: "priority (cache0\<lparr>priority := [5, 3, 6]\<rparr>) = [5, 3, 6]" by simp
  show ?thesis using pageNumberChanged_absent[OF a] unfolding p by simp
qed

theorem pageNumberChanged_absent_counterexample:
  "\<not> contains (cache cache0) 3
   \<and> priority (snd (pageNumberChanged 3 cache0)) = []
   \<and> StartTimer \<notin> set (fst (pageNumberChanged 3 cache0))"
  by (simp add: cache0_def contains_def pageNumberChanged_def)

subsection \<open>requestPage called twice\<close>

text \<open>
  C4. If the first of two identical calls of \<open>requestPage\<close> delivers the page
  (emits \<open>pageReady\<close>), and \<open>cache_page\<close> is true or the page was already cached with a
  matching resolution, then the second call emits \<open>pageReady\<close> with the same pixmap from
  the cache and nothing else: no rendering, no timer.
\<close>

theorem requestPage_twice:
  assumes "PageReady pix page \<in> set (fst (requestPage env page r cache_page s))"
    and "cache_page \<or> compatible (cache s) page r \<noteq> None"
  shows "fst (requestPage env page r cache_page (snd (requestPage env page r cache_page s)))
         = [PageReady pix page]"
proof (cases "compatible (cache s) page r")
  case (Some e)
  then show ?thesis using assms(1) by (simp add: requestPage_def)
next
  case None
  then have cp: cache_page using assms(2) by simp
  from assms(1) None obtain render where
    r: "renderer env = Some render" "render page r = Some pix" "\<not> (page < 0 \<or> numberOfPages env \<le> page)"
    by (auto simp: requestPage_def split: if_splits option.splits)
  have s': "snd (requestPage env page r cache_page s) = store (mkPng env pix page r) page s"
    using None r cp by (simp add: requestPage_def)
  show ?thesis unfolding s'
    using png_pixmap_mkPng[of env pix page r] by (simp add: requestPage_def compatible_store)
qed

theorem requestPage_twice_witness:
  "fst (requestPage env1 0 2 True (snd (requestPage env1 0 2 True cache0))) = [PageReady 7 0]"
proof -
  have a: "PageReady 7 0 \<in> set (fst (requestPage env1 0 2 True cache0))"
    by (simp add: requestPage_def env1_def cache0_def compatible_def)
  show ?thesis using requestPage_twice[OF a] by simp
qed

theorem requestPage_twice_counterexample:
  "fst (requestPage env1 0 2 False (snd (requestPage env1 0 2 False cache0)))
     = [Render 0 2, PageReady 7 0, StartTimer]"
  by (simp add: requestPage_def env1_def cache0_def compatible_def)

subsection \<open>The accounting of the used memory\<close>

text \<open>
  C10. If \<open>usedMemory\<close> is the sum of the sizes of the entries of the cache (null entries
  counting 0), then it still is after \<open>clear\<close>, \<open>pixmap\<close>, \<open>requestPage\<close>,
  \<open>receiveData\<close>, one eviction of the loop of \<open>limitCacheSize\<close> (on a cache that is not
  empty) and the whole of \<open>limitCacheSize\<close>.
\<close>

theorem accounting_preserved:
  assumes "accounted s"
  shows "accounted (clear env s)
         \<and> accounted (snd (pixmap env page res s))
         \<and> accounted (snd (requestPage env page res cache_page s))
         \<and> accounted (snd (receiveData env data s))
         \<and> (cache s \<noteq> [] \<longrightarrow> accounted (step_state (evict_step env f l a c s)))
         \<and> accounted (snd (limitCacheSize env s))"
  using assms
  by (simp add: accounted_clear accounted_pixmap accounted_requestPage accounted_receiveData
      accounted_evict_step accounted_limitCacheSize)

theorem accounting_preserved_witness:
  "accounted cache3
   \<and> accounted (clear env1 cache3)
   \<and> accounted (snd (pixmap env1 1 3 cache3))
   \<and> accounted (snd (requestPage env1 1 3 True cache3))
   \<and> accounted (snd (receiveData env1 (Some (png_of 1 40)) cache3))
   \<and> accounted (step_state (evict_step env1 0 2 0 3 cache3))
   \<and> accounted (snd (limitCacheSize env1 cache3))"
proof -
  have a: "accounted cache3"
    by (simp add: accounted_def cache3_def total_size_def entry_size_def png_of_def)
  have n: "cache cache3 \<noteq> []" by (simp add: cache3_def)
  show ?thesis
    using a n accounting_preserved[OF a, of env1 1 3 True "Some (png_of 1 40)" 0 2 0 3]
    by simp
qed

section \<open>Properties of the colour format\<close>

lemma length_digits [simp]: "length (digits k n) = k"
  by (induction k arbitrary: n) auto

lemma length_number16: "n < 16 ^ k \<Longrightarrow> 0 < k \<Longrightarrow> length (number16 n) \<le> k"
proof (induction n arbitrary: k rule: number16.induct)
  case (1 n)
  show ?case
  proof (cases "n < 16")
    case True then show ?thesis using "1.prems" by (simp add: number16.simps[of n])
  next
    case False
    obtain j where k: "k = Suc j" using "1.prems"(2) by (cases k) auto
    have j: "0 < j" using False "1.prems"(1) k by (cases j) auto
    have "n div 16 < 16 ^ j" using "1.prems"(1) k by (simp add: less_mult_imp_div_less mult.commute)
    then have "length (number16 (n div 16)) \<le> j" using "1.IH"[OF False _ j] by simp
    then show ?thesis using False k by (simp add: number16.simps[of n])
  qed
qed

lemma digits_zero: "digits k 0 = replicate k (hex_digit 0)"
  by (induction k) (auto simp: replicate_append_same)

lemma pad_number16:
  "n < 16 ^ k \<Longrightarrow> 0 < k \<Longrightarrow>
   replicate (k - length (number16 n)) (hex_digit 0) @ number16 n = digits k n"
proof (induction n arbitrary: k rule: number16.induct)
  case (1 n)
  obtain j where k: "k = Suc j" using "1.prems"(2) by (cases k) auto
  show ?case
  proof (cases "n < 16")
    case True
    then show ?thesis using k by (simp add: number16.simps[of n] digits_zero)
  next
    case False
    have j: "0 < j" using False "1.prems"(1) k by (cases j) auto
    have d: "n div 16 < 16 ^ j" using "1.prems"(1) k by (simp add: less_mult_imp_div_less mult.commute)
    have l: "length (number16 (n div 16)) \<le> j" using d j by (rule length_number16)
    have "replicate (j - length (number16 (n div 16))) (hex_digit 0) @ number16 (n div 16) = digits j (n div 16)"
      using "1.IH"[OF False d j] .
    then show ?thesis using False k l by (simp add: number16.simps[of n] Suc_diff_le)
  qed
qed

lemma digits_split:
  "lo < 16 ^ k \<Longrightarrow> digits (j + k) (hi * 16 ^ k + lo) = digits j hi @ digits k lo"
proof (induction k arbitrary: lo)
  case 0 then show ?case by simp
next
  case (Suc k)
  have "hi * 16 ^ Suc k + lo = lo + (hi * 16 ^ k) * 16" by simp
  then have d: "(hi * 16 ^ Suc k + lo) div 16 = hi * 16 ^ k + lo div 16"
    by (simp only: div_mult_self1)
  have "hi * 16 ^ Suc k + lo = lo + 16 * (hi * 16 ^ k)" by simp
  then have m: "(hi * 16 ^ Suc k + lo) mod 16 = lo mod 16" by (simp only: mod_mult_self2)
  have l: "lo div 16 < 16 ^ k" using Suc.prems by (simp add: less_mult_imp_div_less mult.commute)
  show ?case using Suc.IH[OF l] d m by simp
qed

lemma hex_value_digit_all: "\<forall>d\<in>set [0..<16]. hex_value (hex_digit d) = Some d"
  by code_simp

lemma hex_value_digit: "d < 16 \<Longrightarrow> hex_value (hex_digit d) = Some d"
  using hex_value_digit_all by simp

lemma unat_byte: "unat (w :: 8 word) < 256"
  using unsigned_less[of w, where 'a = nat] by simp

lemma hex_byte_hex2: "hex_byte (hex_digit (unat w div 16)) (hex_digit (unat w mod 16)) = Some (w :: 8 word)"
proof -
  have "unat w < 256" by (rule unat_byte)
  then have d: "unat w div 16 < 16" by simp
  have m: "unat w mod 16 < 16" by simp
  have "16 * (unat w div 16) + unat w mod 16 = unat w" by simp
  then show ?thesis
    using hex_value_digit[OF d] hex_value_digit[OF m] by (simp add: hex_byte_def)
qed

lemma digits_2: "digits 2 n = [hex_digit (n div 16 mod 16), hex_digit (n mod 16)]"
  by (simp add: numeral_2_eq_2)

lemma digits_byte: "digits 2 (unat (w :: 8 word)) = hex2 w"
proof -
  have "unat w < 256" by (rule unat_byte)
  then have "unat w div 16 mod 16 = unat w div 16" by simp
  then show ?thesis by (simp add: digits_2 hex2_def)
qed

lemma rgba_value:
  "((rgb c * 2 ^ 8) mod 2 ^ 32 + unat (alpha c)) mod 2 ^ 32
   = ((unat (red c) * 16 ^ 2 + unat (green c)) * 16 ^ 2 + unat (blue c)) * 16 ^ 2 + unat (alpha c)"
proof -
  have r: "unat (red c) < 256" by (rule unat_byte)
  have g: "unat (green c) < 256" by (rule unat_byte)
  have b: "unat (blue c) < 256" by (rule unat_byte)
  have a: "unat (alpha c) < 256" by (rule unat_byte)
  define x where "x = ((unat (red c) * 256 + unat (green c)) * 256 + unat (blue c)) * 256"
  have xb: "x + unat (alpha c) < 2 ^ 32" using r g b a by (simp add: x_def)
  have "rgb c * 2 ^ 8 = x + 255 * 2 ^ 32" by (simp add: rgb_def x_def algebra_simps)
  moreover have "(x + 255 * 2 ^ 32) mod 2 ^ 32 = x mod (2 ^ 32 :: nat)" by (rule mod_mult_self1)
  ultimately have "(rgb c * 2 ^ 8) mod 2 ^ 32 = x mod 2 ^ 32" by (simp only:)
  also have "\<dots> = x" using xb by simp
  finally have "((rgb c * 2 ^ 8) mod 2 ^ 32 + unat (alpha c)) mod 2 ^ 32 = x + unat (alpha c)"
    using xb by simp
  then show ?thesis by (simp add: x_def)
qed

lemma color_to_rgba_hex:
  "color_to_rgba c = CHR ''#'' # hex2 (red c) @ hex2 (green c) @ hex2 (blue c) @ hex2 (alpha c)"
proof -
  define v where "v = ((unat (red c) * 16 ^ 2 + unat (green c)) * 16 ^ 2 + unat (blue c)) * 16 ^ 2 + unat (alpha c)"
  have r: "unat (red c) < 16 ^ 2" using unat_byte[of "red c"] by simp
  have g: "unat (green c) < 16 ^ 2" using unat_byte[of "green c"] by simp
  have b: "unat (blue c) < 16 ^ 2" using unat_byte[of "blue c"] by simp
  have a: "unat (alpha c) < 16 ^ 2" using unat_byte[of "alpha c"] by simp
  have vb: "v < 16 ^ 8" using r g b a by (simp add: v_def)
  have l: "length (number16 v) \<le> 8" using vb by (rule length_number16) simp
  have z: "hex_digit 0 = CHR ''0''" by (simp add: hex_digit_def)
  have cv: "color_to_rgba c = CHR ''#'' # rightJustified 8 CHR ''0'' True (number16 v)"
    unfolding color_to_rgba_def rgba_value v_def by (rule refl)
  have "rightJustified 8 CHR ''0'' True (number16 v) = digits 8 v"
  proof (cases "length (number16 v) < 8")
    case True
    then show ?thesis using pad_number16[OF vb] by (simp add: rightJustified_def z)
  next
    case False
    then have "length (number16 v) = 8" using l by simp
    then show ?thesis using pad_number16[OF vb] by (simp add: rightJustified_def)
  qed
  moreover have "digits 8 v = hex2 (red c) @ hex2 (green c) @ hex2 (blue c) @ hex2 (alpha c)"
  proof -
    have "digits (6 + 2) v = digits 6 ((unat (red c) * 16 ^ 2 + unat (green c)) * 16 ^ 2 + unat (blue c)) @ digits 2 (unat (alpha c))"
      unfolding v_def using a by (rule digits_split)
    moreover have "digits (4 + 2) ((unat (red c) * 16 ^ 2 + unat (green c)) * 16 ^ 2 + unat (blue c))
                   = digits 4 (unat (red c) * 16 ^ 2 + unat (green c)) @ digits 2 (unat (blue c))"
      using b by (rule digits_split)
    moreover have "digits (2 + 2) (unat (red c) * 16 ^ 2 + unat (green c))
                   = digits 2 (unat (red c)) @ digits 2 (unat (green c))"
      using g by (rule digits_split)
    ultimately show ?thesis by (simp add: digits_byte)
  qed
  ultimately show ?thesis unfolding cv by (simp only:)
qed

lemma hex_digit_lower: "d < 16 \<Longrightarrow> hex_digit d \<in> set ''0123456789abcdef''"
  unfolding hex_digit_def by (rule nth_mem) simp

lemma hex2_lower: "set (hex2 w) \<subseteq> set ''0123456789abcdef''"
proof -
  have "unat w < 256" by (rule unat_byte)
  then have "unat w div 16 < 16" by simp
  then have 1: "hex_digit (unat w div 16) \<in> set ''0123456789abcdef''" by (rule hex_digit_lower)
  have "unat w mod 16 < 16" by simp
  then have 2: "hex_digit (unat w mod 16) \<in> set ''0123456789abcdef''" by (rule hex_digit_lower)
  have "set (hex2 w) = {hex_digit (unat w div 16), hex_digit (unat w mod 16)}"
    unfolding hex2_def by (simp only: list.set)
  then show ?thesis using 1 2 by (simp only: insert_subset empty_subsetI simp_thms)
qed

lemma QColor_argb:
  "hex_byte a1 a2 = Some a \<Longrightarrow> hex_byte r1 r2 = Some r \<Longrightarrow> hex_byte g1 g2 = Some g \<Longrightarrow>
   hex_byte b1 b2 = Some b \<Longrightarrow>
   QColor_string other [CHR ''#'', a1, a2, r1, r2, g1, g2, b1, b2]
     = Some \<lparr>red = r, green = g, blue = b, alpha = a\<rparr>"
  by (simp add: QColor_string_def)

lemma rgba_reorder:
  "rgba_to_color other [h, r1, r2, g1, g2, b1, b2, a1, a2]
   = QColor_string other [CHR ''#'', a1, a2, r1, r2, g1, g2, b1, b2]"
  by (simp add: rgba_to_color_def right_def mid_def)

text \<open>
  C8. For every colour, \<open>color_to_rgba\<close> gives \<open>#\<close> followed by the two lower-case
  hexadecimal digits of red, green, blue and alpha, nine characters in all, and
  \<open>rgba_to_color\<close> reads that string back as the same colour.
\<close>

theorem color_roundtrip:
  "color_to_rgba c = CHR ''#'' # hex2 (red c) @ hex2 (green c) @ hex2 (blue c) @ hex2 (alpha c)
   \<and> length (color_to_rgba c) = 9
   \<and> set (tl (color_to_rgba c)) \<subseteq> set ''0123456789abcdef''
   \<and> rgba_to_color other (color_to_rgba c) = Some c"
proof -
  have h: "color_to_rgba c = CHR ''#'' # hex2 (red c) @ hex2 (green c) @ hex2 (blue c) @ hex2 (alpha c)"
    by (rule color_to_rgba_hex)
  have l: "length (color_to_rgba c) = 9" unfolding h by (simp add: hex2_def)
  have "set (tl (color_to_rgba c))
        = set (hex2 (red c)) \<union> set (hex2 (green c)) \<union> set (hex2 (blue c)) \<union> set (hex2 (alpha c))"
    unfolding h by (simp only: list.sel set_append Un_assoc)
  then have s: "set (tl (color_to_rgba c)) \<subseteq> set ''0123456789abcdef''"
    using hex2_lower[of "red c"] hex2_lower[of "green c"] hex2_lower[of "blue c"] hex2_lower[of "alpha c"]
    by (simp only: Un_subset_iff simp_thms)
  have "rgba_to_color other (color_to_rgba c)
        = QColor_string other [CHR ''#'', hex_digit (unat (alpha c) div 16), hex_digit (unat (alpha c) mod 16),
            hex_digit (unat (red c) div 16), hex_digit (unat (red c) mod 16),
            hex_digit (unat (green c) div 16), hex_digit (unat (green c) mod 16),
            hex_digit (unat (blue c) div 16), hex_digit (unat (blue c) mod 16)]"
    unfolding h hex2_def by (simp only: append.simps rgba_reorder)
  also have "\<dots> = Some \<lparr>red = red c, green = green c, blue = blue c, alpha = alpha c\<rparr>"
    by (rule QColor_argb) (rule hex_byte_hex2)+
  finally have r: "rgba_to_color other (color_to_rgba c) = Some c" by simp
  show ?thesis using h l s r by (simp only: simp_thms)
qed

theorem color_roundtrip_witness:
  "color_to_rgba \<lparr>red = 255, green = 0, blue = 18, alpha = 128\<rparr> = ''#ff001280''
   \<and> rgba_to_color (\<lambda>str. None) ''#ff001280'' = Some \<lparr>red = 255, green = 0, blue = 18, alpha = 128\<rparr>"
proof -
  define c :: color where "c = \<lparr>red = 255, green = 0, blue = 18, alpha = 128\<rparr>"
  have h: "CHR ''#'' # hex2 (red c) @ hex2 (green c) @ hex2 (blue c) @ hex2 (alpha c) = ''#ff001280''"
    by (simp add: c_def hex2_def hex_digit_def)
  note r = color_roundtrip[of c "\<lambda>str. None"]
  have e: "color_to_rgba c = ''#ff001280''" using r[THEN conjunct1] h by (simp only:)
  have "rgba_to_color (\<lambda>str. None) (color_to_rgba c) = Some c"
    by (rule r[THEN conjunct2, THEN conjunct2, THEN conjunct2])
  then show ?thesis using e unfolding c_def by (simp only: simp_thms)
qed

end
